theory Spec2Isabelle
  imports Main "HOL-Library.AList"
begin

section \<open>Data model\<close>

text \<open>
  The indexing core of the workspace indexer: class \<open>Indexer\<close> and the free function
  \<open>getFileFromSymbolTable\<close>. Strings are \<open>string\<close>; a JavaScript \<open>Map\<close> is an
  association list in insertion order (\<open>map_of\<close> reads it, \<open>AList.update\<close> is
  \<open>Map.set\<close>: it replaces the value of a key in place and appends a new key); a JavaScript
  \<open>Set\<close> of strings is a duplicate-free list in insertion order.
\<close>

record Position =
  line :: nat
  character :: nat

record Range =
  range_start :: Position
  range_end :: Position

record Location =
  uri :: string
  rangeL :: Range

text \<open>Field \<open>nodeId\<close> is the source's \<open>id\<close>, field \<open>rangeL\<close> its \<open>range\<close>.\<close>

record CodeGraphNode =
  nodeId :: string
  location :: Location
  parentNodeId :: "string option"

record SkeletonizedCodeGraphNode = CodeGraphNode +
  skeleton :: string

type_synonym CodeGraphEdgeMap = "(string \<times> string list) list"

type_synonym SerializeMap = "(string \<times> string list) list"

record FileEntry =
  nodeIds :: "string list"
  sha :: string

record Metadata =
  md_filePath :: string
  md_startRange :: string
  md_endRange :: string
  md_relatedNodes :: "string list"
  md_parentNodeId :: "string option"

record Document =
  pageContent :: string
  docId :: string
  metadata :: Metadata

record IndexerResult =
  codeDocs :: "Document list"
  relativeImports :: SerializeMap
  relativeExports :: SerializeMap

record ParseResult =
  pr_importEdges :: CodeGraphEdgeMap
  pr_exportEdges :: CodeGraphEdgeMap
  pr_nodes :: "CodeGraphNode list"

text \<open>
  What a JavaScript exception carries is not inspected by the indexer (the \<open>catch\<close> only
  logs it); the constructors name the failures of the error taxonomy. \<open>TypeError\<close> is
  what the runtime raises for \<open>textDocument!.getText()\<close> on \<open>undefined\<close> and what
  \<open>fileURLToPath\<close> raises for a string that is not a file URL.
\<close>

datatype error = TypeError | ParseFailure | GenerationFailure | PersistenceFailure

subsection \<open>The code graph\<close>

record CodeGraph =
  symbolTable :: "(string \<times> FileEntry) list"
  importEdges :: CodeGraphEdgeMap
  exportEdges :: CodeGraphEdgeMap
  graphNodes :: "(string \<times> CodeGraphNode) list"

text \<open>
  Modelled from the spec: class \<open>CodeGraph\<close> (module \<open>./graph\<close>) is imported by the
  indexer as a type only; its methods are written from section 4.1 of the specification.
  \<open>getFileFromSymbolTable\<close> returns the entry of a file or nothing.
\<close>

definition CodeGraph_getFileFromSymbolTable :: "CodeGraph \<Rightarrow> string \<Rightarrow> FileEntry option" where
  "CodeGraph_getFileFromSymbolTable g relativePath = map_of (symbolTable g) relativePath"

definition formerNodeIds :: "CodeGraph \<Rightarrow> string \<Rightarrow> string list" where
  "formerNodeIds g relativePath =
     (case map_of (symbolTable g) relativePath of None \<Rightarrow> [] | Some e \<Rightarrow> nodeIds e)"

definition dropEdgesOf :: "string list \<Rightarrow> CodeGraphEdgeMap \<Rightarrow> CodeGraphEdgeMap" where
  "dropEdgesOf ids edges = filter (\<lambda>kv. fst kv \<notin> set ids) edges"

definition putEdges :: "CodeGraphEdgeMap \<Rightarrow> CodeGraphEdgeMap \<Rightarrow> CodeGraphEdgeMap" where
  "putEdges new edges = fold (\<lambda>kv acc. AList.update (fst kv) (snd kv) acc) new edges"

text \<open>
  Modelled from the spec: \<open>updateFileWithEdges\<close> replaces the file's entry and replaces
  (does not merge) the edges of every node id of the file's previous entry with the edges
  passed in.
\<close>

definition updateFileWithEdges ::
  "CodeGraph \<Rightarrow> string \<Rightarrow> FileEntry \<Rightarrow> CodeGraphEdgeMap \<Rightarrow> CodeGraphEdgeMap \<Rightarrow> CodeGraph" where
  "updateFileWithEdges g relativePath entry imports exports =
     g\<lparr>symbolTable := AList.update relativePath entry (symbolTable g),
       importEdges := putEdges imports (dropEdgesOf (formerNodeIds g relativePath) (importEdges g)),
       exportEdges := putEdges exports (dropEdgesOf (formerNodeIds g relativePath) (exportEdges g))\<rparr>"

text \<open>
  Modelled from the spec: \<open>removeFileFromSymbolTable\<close> drops the file's entry and all
  edges keyed by any of its former node ids.
\<close>

definition removeFileFromSymbolTable :: "CodeGraph \<Rightarrow> string \<Rightarrow> CodeGraph" where
  "removeFileFromSymbolTable g relativePath =
     g\<lparr>symbolTable := AList.delete relativePath (symbolTable g),
       importEdges := dropEdgesOf (formerNodeIds g relativePath) (importEdges g),
       exportEdges := dropEdgesOf (formerNodeIds g relativePath) (exportEdges g)\<rparr>"

text \<open>Modelled from the spec: \<open>getImportEdge\<close> and \<open>getNode\<close> signal a missing entry by absence.\<close>

definition getImportEdge :: "CodeGraph \<Rightarrow> string \<Rightarrow> string list option" where
  "getImportEdge g n = map_of (importEdges g) n"

definition getNode :: "CodeGraph \<Rightarrow> string \<Rightarrow> CodeGraphNode option" where
  "getNode g n = map_of (graphNodes g) n"

subsection \<open>Tasks of the skeletonizer\<close>

text \<open>
  \<open>skeletonizeCodeNodes\<close> calls its closure \<open>processNode\<close> on a node, which calls itself
  on the children of the node, all at once, and waits for them with \<open>Promise.all\<close>. A
  call of \<open>processNode\<close> is a task: it waits for the tasks of the children, then waits
  for the text document of its node (unless the cache has it), then waits for the
  generator, and ends. A task that has ended has returned (\<open>Done\<close>) or has thrown
  (\<open>Failed\<close>). \<open>Generating\<close> holds the file path and the code block that went to the
  generator.
\<close>

datatype phase = Waiting | Reading | Generating string string | Done | Failed error

datatype task = Task (taskNode: CodeGraphNode) (taskPhase: phase) (subtasks: "task list")

subsection \<open>Collaborators and the trace of their calls\<close>

text \<open>
  The two progress callbacks return promises. The source calls both without \<open>await\<close>:
  the promise is dropped and the pass goes on at once.
\<close>

datatype callback = OnFileProcessing string | OnFileRemoved string

text \<open>
  One event per call to a collaborator, in program order. \<open>CallbackAwaited\<close> stands for
  a callback whose promise the pass waits for, \<open>CallbackDetached\<close> for one whose promise
  is dropped. \<open>TasksDetached\<close> is no call: it marks the point where
  \<open>skeletonizeCodeNodes\<close> has thrown while tasks it started were still waiting for a
  document or for the generator. Nothing waits for these tasks any more; they go on
  beside the pass, and the calls they make later are not in the trace.
\<close>

datatype event =
    ExistsSync string
  | ReadDocument string
  | Glob string string
  | CreateNodes string
  | Generate CodeGraphNode string
  | FindDocumentsByPath "string list"
  | DeleteDocuments "string list"
  | Save "Document list" SerializeMap SerializeMap "(string \<times> FileEntry) list" bool
  | CallbackAwaited callback
  | CallbackDetached callback
  | TasksDetached task

text \<open>
  The state of one call of \<open>skeletonizeCodeNodes\<close>: its text document cache, the result
  collection \<open>skeletonNodes\<close>, and the collaborator calls made so far.
\<close>

record SkeletonRun =
  textDocumentCache :: "(string \<times> string) list"
  skeletonNodes :: "SkeletonizedCodeGraphNode list"
  events :: "event list"

text \<open>
  Everything the indexer reaches outside itself: the file system and path library, the
  digest, the glob library, the parser, the generator, the vector store. The readable
  text documents are a finite table (\<open>getTextDocumentFromUri\<close> yields \<open>undefined\<close>
  for a URI outside it) that does not change during a call. A collaborator that can fail
  returns \<open>Inl\<close> of the error it throws. The store's replies are given by the
  environment; its contents are not modelled, its calls are recorded in the trace.

  The environment also decides in which order the operations that several tasks of the
  skeletonizer wait for at the same time come to an end: \<open>nextSettled\<close> is given the
  tasks and the state of the call and names the waiting task that is served next, by its
  position among the waiting tasks (taken modulo their number). Every order is the order
  of some environment.
\<close>

record env =
  existsSync :: "string \<Rightarrow> bool"
  fileURLToPath :: "string \<Rightarrow> string option"
  relative :: "string \<Rightarrow> string \<Rightarrow> string"
  documents :: "(string \<times> string) list"
  getTextOfRange :: "string \<Rightarrow> Range \<Rightarrow> string"
  sha256hex :: "string \<Rightarrow> string"
  glob :: "string \<Rightarrow> string \<Rightarrow> string list"
  createNodesFromDocument :: "string \<Rightarrow> string \<Rightarrow> error + ParseResult option"
  mergeCodeNodeSummariesIntoParent ::
    "Location \<Rightarrow> string \<Rightarrow> string list \<Rightarrow> SkeletonizedCodeGraphNode list \<Rightarrow> string"
  skeletonizeCodeGraphNode ::
    "string \<Rightarrow> CodeGraphNode \<Rightarrow> string \<Rightarrow> CodeGraphNode list \<Rightarrow> error + SkeletonizedCodeGraphNode"
  nextSettled :: "task \<Rightarrow> SkeletonRun \<Rightarrow> nat"
  convertIdToFilePath :: "string \<Rightarrow> string \<Rightarrow> string \<Rightarrow> string \<Rightarrow> string"
  findDocumentsByPath :: "string list \<Rightarrow> error + Document list option"
  deleteDocuments :: "string list \<Rightarrow> error option"
  save ::
    "Document list \<Rightarrow> SerializeMap \<Rightarrow> SerializeMap \<Rightarrow> (string \<times> FileEntry) list \<Rightarrow> bool \<Rightarrow> error option"

definition getTextDocumentFromUri :: "env \<Rightarrow> string \<Rightarrow> string option" where
  "getTextDocumentFromUri e u = map_of (documents e) u"

section \<open>The indexer\<close>

record Indexer =
  workspace :: string
  inclusionFilter :: string
  syncing :: bool
  matchedFilesCache :: "string list option"
  codeGraph :: CodeGraph
  trace :: "event list"

definition emit :: "event \<Rightarrow> 'a Indexer_scheme \<Rightarrow> 'a Indexer_scheme" where
  "emit ev s = s\<lparr>trace := trace s @ [ev]\<rparr>"

definition isSyncing :: "'a Indexer_scheme \<Rightarrow> bool" where
  "isSyncing s = syncing s"

text \<open>
  \<open>shouldIncludeFile\<close>: the guard \<open>!this.matchedFilesCache\<close> holds for \<open>null\<close> only;
  a \<open>Set\<close>, also an empty one, is truthy.
\<close>

definition shouldIncludeFile :: "env \<Rightarrow> string \<Rightarrow> 'a Indexer_scheme \<Rightarrow> bool \<times> 'a Indexer_scheme" where
  "shouldIncludeFile e relativeFilePath s =
     (case matchedFilesCache s of
        None \<Rightarrow>
          (let matchedFiles = glob e (inclusionFilter s) (workspace s)
           in (relativeFilePath \<in> set matchedFiles,
               (emit (Glob (inclusionFilter s) (workspace s)) s)
                 \<lparr>matchedFilesCache := Some (remdups matchedFiles)\<rparr>))
      | Some cache \<Rightarrow> (relativeFilePath \<in> set cache, s))"

text \<open>\<open>clearCache\<close> is \<open>this.matchedFilesCache?.clear()\<close>: it empties the set, when there is one.\<close>

definition clearCache :: "'a Indexer_scheme \<Rightarrow> 'a Indexer_scheme" where
  "clearCache s =
     (case matchedFilesCache s of
        None \<Rightarrow> s
      | Some cache \<Rightarrow> s\<lparr>matchedFilesCache := Some []\<rparr>)"

definition setInclusionFilter :: "string \<Rightarrow> 'a Indexer_scheme \<Rightarrow> 'a Indexer_scheme" where
  "setInclusionFilter f s = s\<lparr>inclusionFilter := f\<rparr>"


section \<open>Skeletonizing\<close>

text \<open>\<open>if (node.parentNodeId)\<close>: \<open>undefined\<close> and the empty string are falsy.\<close>

definition truthy :: "string option \<Rightarrow> bool" where
  "truthy p = (case p of None \<Rightarrow> False | Some x \<Rightarrow> x \<noteq> [])"

definition childrenOf :: "(string \<times> CodeGraphNode list) list \<Rightarrow> string \<Rightarrow> CodeGraphNode list" where
  "childrenOf parentNodeMap k = (case map_of parentNodeMap k of None \<Rightarrow> [] | Some cs \<Rightarrow> cs)"

text \<open>The first loop of \<open>skeletonizeCodeNodes\<close>, one node at a time.\<close>

definition addNode ::
  "CodeGraphNode \<Rightarrow> (string \<times> CodeGraphNode list) list \<times> CodeGraphNode list
     \<Rightarrow> (string \<times> CodeGraphNode list) list \<times> CodeGraphNode list" where
  "addNode node acc =
     (case acc of (parentNodeMap, rootNodes) \<Rightarrow>
        (case parentNodeId node of
           None \<Rightarrow> (parentNodeMap, rootNodes @ [node])
         | Some p \<Rightarrow>
             if p \<noteq> []
             then (AList.update p (childrenOf parentNodeMap p @ [node]) parentNodeMap, rootNodes)
             else (parentNodeMap, rootNodes @ [node])))"

definition partitionNodes ::
  "CodeGraphNode list \<Rightarrow> (string \<times> CodeGraphNode list) list \<times> CodeGraphNode list" where
  "partitionNodes nodes = fold addNode nodes ([], [])"

definition relatedNodesOf :: "CodeGraph \<Rightarrow> string \<Rightarrow> CodeGraphNode list" where
  "relatedNodesOf g n =
     List.map_filter (getNode g) (case getImportEdge g n of None \<Rightarrow> [] | Some es \<Rightarrow> es)"

subsection \<open>\<open>skeletonizeNode\<close>, from one \<open>await\<close> to the next\<close>

text \<open>
  The part of \<open>skeletonizeNode\<close> from the text document to the call of the generator. It
  runs without a break: \<open>fileURLToPath\<close> (which throws for a string that is not a file
  URL), the text of the node's range, the merge with the skeletons collected so far when
  the node has children, the call.
\<close>

definition callGenerator ::
  "env \<Rightarrow> CodeGraphNode \<Rightarrow> CodeGraphNode list \<Rightarrow> string \<Rightarrow> SkeletonRun \<Rightarrow> phase \<times> SkeletonRun" where
  "callGenerator e node childNodes textDocument r =
     (case fileURLToPath e (uri (location node)) of
        None \<Rightarrow> (Failed TypeError, r)
      | Some filePath \<Rightarrow>
          (let raw = getTextOfRange e textDocument (rangeL (location node));
               nodeCodeBlock =
                 (if childNodes \<noteq> []
                  then mergeCodeNodeSummariesIntoParent e (location node) raw
                         (map nodeId childNodes) (skeletonNodes r)
                  else raw)
           in (Generating filePath nodeCodeBlock,
               r\<lparr>events := events r @ [Generate node nodeCodeBlock]\<rparr>)))"

text \<open>
  \<open>skeletonizeNode\<close> up to its first \<open>await\<close>: with the document in the cache it goes
  straight to the generator, otherwise it asks for the document.
\<close>

definition skeletonizeNode ::
  "env \<Rightarrow> CodeGraphNode \<Rightarrow> CodeGraphNode list \<Rightarrow> SkeletonRun \<Rightarrow> phase \<times> SkeletonRun" where
  "skeletonizeNode e node childNodes r =
     (case map_of (textDocumentCache r) (uri (location node)) of
        Some textDocument \<Rightarrow> callGenerator e node childNodes textDocument r
      | None \<Rightarrow> (Reading, r\<lparr>events := events r @ [ReadDocument (uri (location node))]\<rparr>))"

text \<open>
  \<open>getTextDocumentFromUri\<close> has answered: without a document \<open>skeletonizeNode\<close>
  returns \<open>undefined\<close> and \<open>processNode\<close> ends without a skeleton; with one, the document
  goes into the cache and the generator is called.
\<close>

definition documentArrived ::
  "env \<Rightarrow> CodeGraphNode \<Rightarrow> CodeGraphNode list \<Rightarrow> SkeletonRun \<Rightarrow> phase \<times> SkeletonRun" where
  "documentArrived e node childNodes r =
     (case getTextDocumentFromUri e (uri (location node)) of
        None \<Rightarrow> (Done, r)
      | Some textDocument \<Rightarrow>
          callGenerator e node childNodes textDocument
            (r\<lparr>textDocumentCache :=
                 AList.update (uri (location node)) textDocument (textDocumentCache r)\<rparr>))"

text \<open>
  The generator has answered: its error is thrown on, its skeleton is what
  \<open>skeletonizeNode\<close> returns and \<open>processNode\<close> pushes.
\<close>

definition skeletonArrived ::
  "env \<Rightarrow> CodeGraph \<Rightarrow> CodeGraphNode \<Rightarrow> string \<Rightarrow> string \<Rightarrow> SkeletonRun \<Rightarrow> phase \<times> SkeletonRun" where
  "skeletonArrived e g node filePath nodeCodeBlock r =
     (case skeletonizeCodeGraphNode e filePath node nodeCodeBlock
             (relatedNodesOf g (nodeId node)) of
        Inl err \<Rightarrow> (Failed err, r)
      | Inr skeletonNode \<Rightarrow> (Done, r\<lparr>skeletonNodes := skeletonNodes r @ [skeletonNode]\<rparr>))"

subsection \<open>\<open>processNode\<close> and \<open>Promise.all\<close>\<close>

definition isDone :: "task \<Rightarrow> bool" where
  "isDone t = (taskPhase t = Done)"

text \<open>The error of the first task of a list that has thrown.\<close>

fun rejection :: "task list \<Rightarrow> error option" where
  "rejection [] = None"
| "rejection (t # ts) =
     (case taskPhase t of Failed err \<Rightarrow> Some err | _ \<Rightarrow> rejection ts)"

text \<open>
  What a task that waits for its children does when one of them has ended:
  \<open>Promise.all\<close> rejects as soon as one child has thrown, and \<open>processNode\<close> throws that
  error on; it resolves when all children have returned, and \<open>processNode\<close> goes on with
  \<open>skeletonizeNode\<close>; otherwise the task keeps waiting. A node without children does not
  wait: \<open>Promise.all([])\<close> is resolved from the start.
\<close>

definition childrenSettled ::
  "env \<Rightarrow> CodeGraphNode \<Rightarrow> task list \<Rightarrow> SkeletonRun \<Rightarrow> phase \<times> SkeletonRun" where
  "childrenSettled e node ts r =
     (case rejection ts of
        Some err \<Rightarrow> (Failed err, r)
      | None \<Rightarrow>
          if list_all isDone ts then skeletonizeNode e node (map taskNode ts) r
          else (Waiting, r))"

text \<open>
  A call of \<open>processNode\<close>, up to the point where it and all the calls below it wait.
  The call looks up the children of the node and calls itself on each of them, in list
  order, before it reaches its own \<open>await\<close>; so one call on a root starts a task for
  every node below the root. None of this touches a collaborator, except that the tasks
  of nodes without children go on to \<open>skeletonizeNode\<close> at once, in the order in which
  they were started.

  The recursion follows \<open>parentNodeMap\<close> by node id and need not end (two nodes of one
  id, one the parent of the other), so it takes fuel: \<open>None\<close> is a call that has not come
  back within the fuel.
\<close>

fun processNode ::
    "nat \<Rightarrow> env \<Rightarrow> (string \<times> CodeGraphNode list) list \<Rightarrow> CodeGraphNode \<Rightarrow> SkeletonRun
       \<Rightarrow> (task \<times> SkeletonRun) option"
  and processChildren ::
    "nat \<Rightarrow> env \<Rightarrow> (string \<times> CodeGraphNode list) list \<Rightarrow> CodeGraphNode list \<Rightarrow> SkeletonRun
       \<Rightarrow> (task list \<times> SkeletonRun) option" where
  "processNode 0 e parentNodeMap node r = None"
| "processNode (Suc k) e parentNodeMap node r =
     (case processChildren k e parentNodeMap (childrenOf parentNodeMap (nodeId node)) r of
        None \<Rightarrow> None
      | Some (ts, r1) \<Rightarrow>
          (case childrenSettled e node ts r1 of (ph, r2) \<Rightarrow> Some (Task node ph ts, r2)))"
| "processChildren k e parentNodeMap [] r = Some ([], r)"
| "processChildren k e parentNodeMap (c # cs) r =
     (case processNode k e parentNodeMap c r of
        None \<Rightarrow> None
      | Some (t, r1) \<Rightarrow>
          (case processChildren k e parentNodeMap cs r1 of
             None \<Rightarrow> None
           | Some (ts, r2) \<Rightarrow> Some (t # ts, r2)))"

text \<open>
  The tasks that wait for a collaborator. A task that waits for its children, or that
  has thrown while its children were running, has the waiting tasks of its children
  below it.
\<close>

fun pendingCount :: "task \<Rightarrow> nat" where
  "pendingCount (Task n ph ts) =
     (case ph of
        Reading \<Rightarrow> 1
      | Generating filePath nodeCodeBlock \<Rightarrow> 1
      | Done \<Rightarrow> 0
      | Waiting \<Rightarrow> sum_list (map pendingCount ts)
      | Failed err \<Rightarrow> sum_list (map pendingCount ts))"

text \<open>
  One collaborator answers: the \<open>i\<close>-th waiting task goes on from its \<open>await\<close> to the
  next one or to its end, and the tasks above it that were waiting for it go on in turn.
  All of this runs before the next answer is taken up: the code between two \<open>await\<close>s
  runs without interruption, and the continuations that one answer sets off (the
  \<open>Promise.all\<close> of the parent, then the parent's own \<open>skeletonizeNode\<close> up to its first
  call of a collaborator) run before the event loop delivers another answer.
\<close>

fun settle :: "env \<Rightarrow> CodeGraph \<Rightarrow> nat \<Rightarrow> task \<Rightarrow> SkeletonRun \<Rightarrow> task \<times> SkeletonRun"
  and settleAmong ::
    "env \<Rightarrow> CodeGraph \<Rightarrow> nat \<Rightarrow> task list \<Rightarrow> SkeletonRun \<Rightarrow> task list \<times> SkeletonRun" where
  "settle e g i (Task n ph ts) r =
     (case ph of
        Reading \<Rightarrow>
          (case documentArrived e n (map taskNode ts) r of (ph', r') \<Rightarrow> (Task n ph' ts, r'))
      | Generating filePath nodeCodeBlock \<Rightarrow>
          (case skeletonArrived e g n filePath nodeCodeBlock r of
             (ph', r') \<Rightarrow> (Task n ph' ts, r'))
      | Done \<Rightarrow> (Task n Done ts, r)
      | Waiting \<Rightarrow>
          (case settleAmong e g i ts r of
             (ts', r1) \<Rightarrow>
               (case childrenSettled e n ts' r1 of (ph', r2) \<Rightarrow> (Task n ph' ts', r2)))
      | Failed err \<Rightarrow>
          (case settleAmong e g i ts r of (ts', r1) \<Rightarrow> (Task n (Failed err) ts', r1)))"
| "settleAmong e g i [] r = ([], r)"
| "settleAmong e g i (t # ts) r =
     (if i < pendingCount t
      then (case settle e g i t r of (t', r') \<Rightarrow> (t' # ts, r'))
      else (case settleAmong e g (i - pendingCount t) ts r of (ts', r') \<Rightarrow> (t # ts', r')))"

subsection \<open>Waiting for a root\<close>

text \<open>Every answer of a collaborator brings a task nearer to its end.\<close>

definition phaseWeight :: "phase \<Rightarrow> nat" where
  "phaseWeight ph =
     (case ph of Waiting \<Rightarrow> 3 | Reading \<Rightarrow> 2 | Generating p b \<Rightarrow> 1 | _ \<Rightarrow> 0)"

fun weight :: "task \<Rightarrow> nat" where
  "weight (Task n ph ts) = phaseWeight ph + sum_list (map weight ts)"

lemma callGenerator_weight: "phaseWeight (fst (callGenerator e n cs d r)) \<le> 1"
  by (simp add: callGenerator_def phaseWeight_def Let_def split: option.splits)

lemma skeletonizeNode_weight: "phaseWeight (fst (skeletonizeNode e n cs r)) \<le> 2"
proof (cases "map_of (textDocumentCache r) (uri (location n))")
  case None
  then show ?thesis by (simp add: skeletonizeNode_def phaseWeight_def)
next
  case (Some d)
  with callGenerator_weight [of e n cs d r] show ?thesis by (simp add: skeletonizeNode_def)
qed

lemma documentArrived_weight: "phaseWeight (fst (documentArrived e n cs r)) \<le> 1"
proof (cases "getTextDocumentFromUri e (uri (location n))")
  case None
  then show ?thesis by (simp add: documentArrived_def phaseWeight_def)
next
  case (Some d)
  with callGenerator_weight [of e n cs d] show ?thesis by (simp add: documentArrived_def)
qed

lemma skeletonArrived_weight: "phaseWeight (fst (skeletonArrived e g n p b r)) = 0"
  by (simp add: skeletonArrived_def phaseWeight_def split: sum.splits)

lemma childrenSettled_weight: "phaseWeight (fst (childrenSettled e n ts r)) \<le> 3"
proof (cases "rejection ts")
  case (Some err)
  then show ?thesis by (simp add: childrenSettled_def phaseWeight_def)
next
  case None
  with skeletonizeNode_weight [of e n "map taskNode ts" r] show ?thesis
    by (simp add: childrenSettled_def phaseWeight_def)
qed

lemma settle_weight:
  "i < pendingCount t \<Longrightarrow> weight (fst (settle e g i t r)) < weight t"
  "i < sum_list (map pendingCount ts) \<Longrightarrow>
     sum_list (map weight (fst (settleAmong e g i ts r))) < sum_list (map weight ts)"
proof (induction e g i t r and e g i ts r rule: settle_settleAmong.induct)
  case (1 e g i n ph ts r)
  show ?case
  proof (cases ph)
    case Waiting
    obtain ts' r1 where sa: "settleAmong e g i ts r = (ts', r1)"
      by (cases "settleAmong e g i ts r") auto
    obtain ph' r2 where cs: "childrenSettled e n ts' r1 = (ph', r2)"
      by (cases "childrenSettled e n ts' r1") auto
    from "1.prems" Waiting have "i < sum_list (map pendingCount ts)" by simp
    from "1.IH"(1) [OF Waiting this] sa
    have less: "sum_list (map weight ts') < sum_list (map weight ts)" by simp
    from childrenSettled_weight [of e n ts' r1] cs have "phaseWeight ph' \<le> 3" by simp
    with less Waiting sa cs show ?thesis by (simp add: phaseWeight_def)
  next
    case Reading
    obtain ph' r' where da: "documentArrived e n (map taskNode ts) r = (ph', r')"
      by (cases "documentArrived e n (map taskNode ts) r") auto
    from documentArrived_weight [of e n "map taskNode ts" r] da
    have "phaseWeight ph' \<le> 1" by simp
    with Reading da show ?thesis by (simp add: phaseWeight_def)
  next
    case (Generating p b)
    obtain ph' r' where sk: "skeletonArrived e g n p b r = (ph', r')"
      by (cases "skeletonArrived e g n p b r") auto
    from skeletonArrived_weight [of e g n p b r] sk have "phaseWeight ph' = 0" by simp
    with Generating sk show ?thesis by (simp add: phaseWeight_def)
  next
    case Done
    with "1.prems" show ?thesis by simp
  next
    case (Failed err)
    obtain ts' r1 where sa: "settleAmong e g i ts r = (ts', r1)"
      by (cases "settleAmong e g i ts r") auto
    from "1.prems" Failed have "i < sum_list (map pendingCount ts)" by simp
    from "1.IH"(2) [OF Failed this] sa Failed show ?thesis by simp
  qed
next
  case (2 e g i r)
  then show ?case by simp
next
  case (3 e g i t ts r)
  show ?case
  proof (cases "i < pendingCount t")
    case True
    from "3.IH"(1) [OF True True] True show ?thesis
      by (cases "settle e g i t r") simp
  next
    case False
    with "3.prems" have "i - pendingCount t < sum_list (map pendingCount ts)" by simp
    from "3.IH"(2) [OF False this] False show ?thesis
      by (cases "settleAmong e g (i - pendingCount t) ts r") simp
  qed
qed

text \<open>
  Waiting for a task: collaborators answer, in the order the environment gives, until
  the task has ended; a task that has thrown may leave waiting tasks below it. With
  \<open>untilIdle\<close> the answers go on until no task waits any more: this is how tasks that
  nothing waits for go on after \<open>skeletonizeCodeNodes\<close> has thrown.
\<close>

definition hasEnded :: "task \<Rightarrow> bool" where
  "hasEnded t = (case taskPhase t of Done \<Rightarrow> True | Failed err \<Rightarrow> True | _ \<Rightarrow> False)"

function awaitTask ::
  "env \<Rightarrow> CodeGraph \<Rightarrow> bool \<Rightarrow> task \<Rightarrow> SkeletonRun \<Rightarrow> task \<times> SkeletonRun" where
  "awaitTask e g untilIdle t r =
     (if pendingCount t = 0 \<or> (\<not> untilIdle \<and> hasEnded t) then (t, r)
      else (case settle e g (nextSettled e t r mod pendingCount t) t r of
              (t', r') \<Rightarrow> awaitTask e g untilIdle t' r'))"
  by pat_completeness auto
termination
proof (relation "measure (\<lambda>(e, g, u, t, r). weight t)", goal_cases)
  case 1
  show ?case by simp
next
  case (2 e g untilIdle t r t' r')
  then have "pendingCount t \<noteq> 0" by simp
  then have "nextSettled e t r mod pendingCount t < pendingCount t" by simp
  from settle_weight(1) [OF this, of e g r] 2(2) [symmetric] show ?case by simp
qed

declare awaitTask.simps [simp del]

text \<open>
  The loop \<open>for (const node of rootNodes) { await processNode(node, textDocumentCache); }\<close>:
  one root after the other. When the task of a root has thrown, the loop is left by that
  exception; the task is handed back with the state, for the tasks below it that still
  wait. A task that neither ends nor has a waiting task below it would never come back.
\<close>

fun processRoots ::
  "nat \<Rightarrow> env \<Rightarrow> CodeGraph \<Rightarrow> (string \<times> CodeGraphNode list) list \<Rightarrow> CodeGraphNode list
     \<Rightarrow> SkeletonRun \<Rightarrow> ((error \<times> task + unit) \<times> SkeletonRun) option" where
  "processRoots fuel e g parentNodeMap [] r = Some (Inr (), r)"
| "processRoots fuel e g parentNodeMap (node # rest) r =
     (case processNode fuel e parentNodeMap node r of
        None \<Rightarrow> None
      | Some (t, r1) \<Rightarrow>
          (case awaitTask e g False t r1 of
             (t', r2) \<Rightarrow>
               (case taskPhase t' of
                  Done \<Rightarrow> processRoots fuel e g parentNodeMap rest r2
                | Failed err \<Rightarrow> Some (Inl (err, t'), r2)
                | _ \<Rightarrow> None)))"

text \<open>
  \<open>skeletonizeCodeNodes\<close> returns the collection, or throws; with the error come the task
  that threw and the state of the call, in which the tasks left behind go on.
\<close>

definition skeletonizeCodeNodes ::
  "nat \<Rightarrow> env \<Rightarrow> CodeGraph \<Rightarrow> CodeGraphNode list
     \<Rightarrow> ((error \<times> task \<times> SkeletonRun + SkeletonizedCodeGraphNode list) \<times> event list) option" where
  "skeletonizeCodeNodes fuel e g nodes =
     (case partitionNodes nodes of (parentNodeMap, rootNodes) \<Rightarrow>
        (case processRoots fuel e g parentNodeMap rootNodes
                \<lparr>textDocumentCache = [], skeletonNodes = [], events = []\<rparr> of
           None \<Rightarrow> None
         | Some (Inl (err, t), r) \<Rightarrow> Some (Inl (err, t, r), events r)
         | Some (Inr u, r) \<Rightarrow> Some (Inr (skeletonNodes r), events r)))"

text \<open>What the trace records of the tasks left behind by a call that has thrown.\<close>

definition detached :: "task \<Rightarrow> event list" where
  "detached t = (if pendingCount t = 0 then [] else [TasksDetached t])"


section \<open>One indexing pass\<close>

text \<open>
  The free function \<open>getFileFromSymbolTable\<close>: it reads the document, hashes its text and
  looks its relative path up in the symbol table. \<open>textDocument!.getText()\<close> throws for
  a document that cannot be read, \<open>fileURLToPath\<close> for a string that is not a file URL.
\<close>

definition getFileFromSymbolTable ::
  "env \<Rightarrow> string \<Rightarrow> string \<Rightarrow> CodeGraph \<Rightarrow> error + (FileEntry option \<times> string \<times> string)" where
  "getFileFromSymbolTable e currentDocument ws g =
     (case getTextDocumentFromUri e currentDocument of
        None \<Rightarrow> Inl TypeError
      | Some documentText \<Rightarrow>
          (case fileURLToPath e currentDocument of
             None \<Rightarrow> Inl TypeError
           | Some p \<Rightarrow>
               Inr (CodeGraph_getFileFromSymbolTable g (relative e ws p),
                    relative e ws p,
                    sha256hex e documentText)))"

text \<open>
  The indexer during a pass: the object's fields and the two locals of
  \<open>processDocuments\<close> that live for the whole pass.
\<close>

record Pass = Indexer +
  fileHashMap :: "(string \<times> string) list"
  alreadyVisited :: "string list"

text \<open>
  The locals of one iteration of the outer loop. \<open>relatedNodes\<close> is a \<open>Set\<close> that grows
  while the inner \<open>for ... of\<close> iterates over it: the iterator reaches the elements added
  later too, in insertion order. \<open>pending\<close> holds the elements the iterator has not
  reached yet.
\<close>

record Frontier =
  pending :: "string list"
  relatedNodes :: "string list"
  nodesToProcess :: "(string \<times> CodeGraphNode) list"

text \<open>
  How a loop body ends: it falls through to the next iteration (\<open>continue\<close> too), it
  executes \<open>return\<close>, it throws, or it waits for a promise that never settles.
\<close>

datatype 'a step = Next 'a | Return | Throw error | Diverge

text \<open>The test \<open>file && (file.sha === sha || fileHashMap.get(relativeFilePath) === sha)\<close>.\<close>

definition alreadyIndexed :: "FileEntry option \<Rightarrow> string \<Rightarrow> string option \<Rightarrow> bool" where
  "alreadyIndexed file hash hashed =
     (case file of None \<Rightarrow> False | Some f \<Rightarrow> sha f = hash \<or> hashed = Some hash)"

definition addToSet :: "string \<Rightarrow> string list \<Rightarrow> string list" where
  "addToSet x xs = (if x \<in> set xs then xs else xs @ [x])"

definition addRelated :: "string \<Rightarrow> Frontier \<Rightarrow> Frontier" where
  "addRelated u v =
     (if u \<in> set (relatedNodes v) then v
      else v\<lparr>pending := pending v @ [u], relatedNodes := relatedNodes v @ [u]\<rparr>)"

text \<open>The loop over the parsed nodes of \<open>currentDocument\<close>; \<open>snd acc\<close> is \<open>nodeIdsForFile\<close>.\<close>

fun nodeLoop ::
  "env \<Rightarrow> string \<Rightarrow> CodeGraphNode list \<Rightarrow> Frontier \<times> string list \<Rightarrow> Pass
     \<Rightarrow> (Frontier \<times> string list) step \<times> Pass" where
  "nodeLoop e currentDocument [] acc s = (Next acc, s)"
| "nodeLoop e currentDocument (node # rest) acc s =
     (if uri (location node) \<noteq> currentDocument then
        (case getFileFromSymbolTable e (uri (location node)) (workspace s) (codeGraph s) of
           Inl err \<Rightarrow> (Throw err, emit (ReadDocument (uri (location node))) s)
         | Inr (file, relativeFilePath, hash) \<Rightarrow>
             (case shouldIncludeFile e relativeFilePath
                     (emit (ReadDocument (uri (location node))) s) of
                (shouldInclude, s1) \<Rightarrow>
                  if \<not> shouldInclude then nodeLoop e currentDocument rest acc s1
                  else if alreadyIndexed file hash (map_of (fileHashMap s1) relativeFilePath)
                  then nodeLoop e currentDocument rest acc s1
                  else nodeLoop e currentDocument rest
                         (addRelated (uri (location node)) (fst acc), snd acc) s1))
      else
        (case fileURLToPath e (nodeId node) of
           None \<Rightarrow> (Throw TypeError, s)
         | Some p \<Rightarrow>
             nodeLoop e currentDocument rest
               ((fst acc)\<lparr>nodesToProcess :=
                   AList.update (nodeId node) node (nodesToProcess (fst acc))\<rparr>,
                addToSet (relative e (workspace s) p) (snd acc))
               s))"

definition emptyParse :: ParseResult where
  "emptyParse = \<lparr>pr_importEdges = [], pr_exportEdges = [], pr_nodes = []\<rparr>"

text \<open>
  The body of the inner loop for a document that is not in \<open>alreadyVisited\<close>. The second
  read of the document and its \<open>return\<close> are kept as the source has them; with a table
  of documents that does not change, the first read has thrown already where the second
  would find nothing.
\<close>

definition visitDocument :: "env \<Rightarrow> string \<Rightarrow> Frontier \<Rightarrow> Pass \<Rightarrow> Frontier step \<times> Pass" where
  "visitDocument e currentDocument v s0 =
     (let s = emit (ReadDocument currentDocument)
                (s0\<lparr>alreadyVisited := alreadyVisited s0 @ [currentDocument]\<rparr>)
      in case getFileFromSymbolTable e currentDocument (workspace s) (codeGraph s) of
           Inl err \<Rightarrow> (Throw err, s)
         | Inr (file, relativeFilePath, hash) \<Rightarrow>
             if alreadyIndexed file hash (map_of (fileHashMap s) relativeFilePath)
             then (Next v, s)
             else
               (let s1 = emit (ReadDocument currentDocument)
                           (emit (CallbackDetached (OnFileProcessing relativeFilePath)) s)
                in case getTextDocumentFromUri e currentDocument of
                     None \<Rightarrow> (Return, s1)
                   | Some textDocument \<Rightarrow>
                       (case createNodesFromDocument e currentDocument textDocument of
                          Inl err \<Rightarrow> (Throw err, emit (CreateNodes currentDocument) s1)
                        | Inr parsed \<Rightarrow>
                            (let r = (case parsed of None \<Rightarrow> emptyParse | Some x \<Rightarrow> x);
                                 s2 = emit (CreateNodes currentDocument) s1
                             in if pr_nodes r = [] then (Return, s2)
                                else
                                  (case nodeLoop e currentDocument (pr_nodes r) (v, []) s2 of
                                     (Next acc, s3) \<Rightarrow>
                                       (Next (fst acc),
                                        s3\<lparr>codeGraph :=
                                             updateFileWithEdges (codeGraph s3) relativeFilePath
                                               \<lparr>nodeIds = snd acc, sha = hash\<rparr>
                                               (pr_importEdges r) (pr_exportEdges r),
                                           fileHashMap :=
                                             AList.update relativeFilePath hash (fileHashMap s3)\<rparr>)
                                   | (Return, s3) \<Rightarrow> (Return, s3)
                                   | (Throw err, s3) \<Rightarrow> (Throw err, s3)
                                   | (Diverge, s3) \<Rightarrow> (Diverge, s3))))))"

subsection \<open>The inner loop ends\<close>

text \<open>
  Every document the inner loop goes through without throwing is readable and joins
  \<open>alreadyVisited\<close>, and the readable documents are finitely many.
\<close>

lemma shouldIncludeFile_alreadyVisited:
  fixes s :: Pass
  shows "shouldIncludeFile e p s = (b, s') \<Longrightarrow> alreadyVisited s' = alreadyVisited s"
  by (auto simp: shouldIncludeFile_def emit_def Let_def split: option.splits)

lemma nodeLoop_alreadyVisited:
  "nodeLoop e d ns acc s = (r, s') \<Longrightarrow> alreadyVisited s' = alreadyVisited s"
proof (induction ns arbitrary: acc s)
  case Nil
  then show ?case by simp
next
  case (Cons n ns)
  show ?case
  proof (cases "uri (location n) \<noteq> d")
    case foreign: True
    show ?thesis
    proof (cases "getFileFromSymbolTable e (uri (location n)) (workspace s) (codeGraph s)")
      case (Inl err)
      with Cons.prems foreign show ?thesis by (auto simp: emit_def)
    next
      case (Inr x)
      obtain f0 rel h where x: "x = (f0, rel, h)" by (cases x) auto
      obtain b s1 where inc:
        "shouldIncludeFile e rel (emit (ReadDocument (uri (location n))) s) = (b, s1)"
        by (cases "shouldIncludeFile e rel (emit (ReadDocument (uri (location n))) s)") auto
      have v1: "alreadyVisited s1 = alreadyVisited s"
        using shouldIncludeFile_alreadyVisited [OF inc] by (simp add: emit_def)
      from Cons.prems foreign Inr x inc
      have "\<exists>acc'. nodeLoop e d ns acc' s1 = (r, s')"
        by (cases acc) (auto split: if_splits)
      then obtain acc' where "nodeLoop e d ns acc' s1 = (r, s')" ..
      from Cons.IH [OF this] v1 show ?thesis by simp
    qed
  next
    case own: False
    show ?thesis
    proof (cases "fileURLToPath e (nodeId n)")
      case None
      with Cons.prems own show ?thesis by auto
    next
      case (Some p)
      with Cons.prems own
      have "\<exists>acc'. nodeLoop e d ns acc' s = (r, s')" by (cases acc) auto
      then obtain acc' where "nodeLoop e d ns acc' s = (r, s')" ..
      from Cons.IH [OF this] show ?thesis .
    qed
  qed
qed

lemma visitDocument_Next:
  assumes "visitDocument e d v s = (Next v', s')"
  shows "alreadyVisited s' = alreadyVisited s @ [d] \<and> d \<in> fst ` set (documents e)"
proof -
  have readable: "d \<in> fst ` set (documents e)"
  proof (cases "getTextDocumentFromUri e d")
    case None
    with assms show ?thesis
      by (simp add: visitDocument_def getFileFromSymbolTable_def Let_def)
  next
    case (Some t)
    then show ?thesis
      by (auto simp: getTextDocumentFromUri_def dest: map_of_SomeD intro: rev_image_eqI)
  qed
  have "alreadyVisited s' = alreadyVisited s @ [d]"
    using assms
    by (auto simp: visitDocument_def Let_def emit_def
        split: sum.splits option.splits if_splits prod.splits step.splits
        dest!: nodeLoop_alreadyVisited)
  with readable show ?thesis by simp
qed

text \<open>The inner loop \<open>for (const currentDocument of relatedNodes.values())\<close>.\<close>

function frontierLoop :: "env \<Rightarrow> Frontier \<Rightarrow> Pass \<Rightarrow> Frontier step \<times> Pass" where
  "frontierLoop e v s =
     (case pending v of
        [] \<Rightarrow> (Next v, s)
      | currentDocument # rest \<Rightarrow>
          if currentDocument \<in> set (alreadyVisited s)
          then frontierLoop e (v\<lparr>pending := rest\<rparr>) s
          else
            (case visitDocument e currentDocument (v\<lparr>pending := rest\<rparr>) s of
               (Next v', s') \<Rightarrow> frontierLoop e v' s'
             | (Return, s') \<Rightarrow> (Return, s')
             | (Throw err, s') \<Rightarrow> (Throw err, s')
             | (Diverge, s') \<Rightarrow> (Diverge, s')))"
  by pat_completeness auto
termination
proof (relation "inv_image (less_than <*lex*> less_than)
    (\<lambda>(e, v, s). (card (fst ` set (documents e) - set (alreadyVisited s)), length (pending v)))",
    goal_cases)
  case 1
  show ?case by (intro wf_inv_image wf_lex_prod wf_less_than)
next
  case (2 e v s d rest)
  then show ?case by simp
next
  case (3 e v s d rest x s' v')
  then have vd: "visitDocument e d (v\<lparr>pending := rest\<rparr>) s = (Next v', s')" by simp
  note nx = visitDocument_Next [OF vd]
  have "fst ` set (documents e) - set (alreadyVisited s')
          \<subset> fst ` set (documents e) - set (alreadyVisited s)"
    using nx \<open>d \<notin> set (alreadyVisited s)\<close> by auto
  then have "card (fst ` set (documents e) - set (alreadyVisited s'))
          < card (fst ` set (documents e) - set (alreadyVisited s))"
    by (intro psubset_card_mono) auto
  then show ?case by simp
qed


declare frontierLoop.simps [simp del]

subsection \<open>Document assembly\<close>

text \<open>Decimal digits of a number, for \<open>line.toString()\<close> and the template strings.\<close>

function toString_nat :: "nat \<Rightarrow> string" where
  "toString_nat n =
     (if n < 10 then [char_of (48 + n)]
      else toString_nat (n div 10) @ [char_of (48 + n mod 10)])"
  by pat_completeness auto
termination
  by (relation "measure (\<lambda>n. n)") auto

declare toString_nat.simps [simp del]

definition showPosition :: "Position \<Rightarrow> string" where
  "showPosition p = toString_nat (line p) @ ''-'' @ toString_nat (character p)"

text \<open>\<open>convertNodeId\<close>; \<open>None\<close> is the exception of \<open>fileURLToPath\<close>.\<close>

definition convertNodeId :: "env \<Rightarrow> string \<Rightarrow> string \<Rightarrow> string option" where
  "convertNodeId e ws i =
     (if take 7 i = ''file://''
      then (case fileURLToPath e i of None \<Rightarrow> None | Some p \<Rightarrow> Some (relative e ws p))
      else Some i)"

definition convertEdge :: "env \<Rightarrow> string \<Rightarrow> string \<times> string list \<Rightarrow> (string \<times> string list) option" where
  "convertEdge e ws kv =
     (case convertNodeId e ws (fst kv) of
        None \<Rightarrow> None
      | Some k \<Rightarrow>
          (case those (map (convertNodeId e ws) (snd kv)) of
             None \<Rightarrow> None
           | Some vs \<Rightarrow> Some (k, vs)))"

definition toDocument :: "env \<Rightarrow> string \<Rightarrow> CodeGraph \<Rightarrow> SkeletonizedCodeGraphNode \<Rightarrow> Document option" where
  "toDocument e ws g skeletonNode =
     (let related = (case getImportEdge g (nodeId skeletonNode) of None \<Rightarrow> [] | Some es \<Rightarrow> es);
          r = rangeL (location skeletonNode);
          filePath = convertIdToFilePath e (nodeId skeletonNode)
                       (toString_nat (line (range_start r)))
                       (toString_nat (character (range_start r))) ws
      in case those (map (fileURLToPath e) related) of
           None \<Rightarrow> None
         | Some paths \<Rightarrow>
             Some \<lparr>pageContent = skeleton skeletonNode,
                   docId = nodeId skeletonNode,
                   metadata =
                     \<lparr>md_filePath = (if take 1 filePath = ''/'' then drop 1 filePath else filePath),
                      md_startRange = showPosition (range_start r),
                      md_endRange = showPosition (range_end r),
                      md_relatedNodes = map (relative e ws) paths,
                      md_parentNodeId = parentNodeId skeletonNode\<rparr>\<rparr>)"

definition embedCodeGraph ::
  "env \<Rightarrow> string \<Rightarrow> CodeGraph \<Rightarrow> SkeletonizedCodeGraphNode list \<Rightarrow> error + IndexerResult" where
  "embedCodeGraph e ws g skeletons =
     (case those (map (toDocument e ws g) skeletons) of
        None \<Rightarrow> Inl TypeError
      | Some docs \<Rightarrow>
          (case those (map (convertEdge e ws) (importEdges g)) of
             None \<Rightarrow> Inl TypeError
           | Some imports \<Rightarrow>
               (case those (map (convertEdge e ws) (exportEdges g)) of
                  None \<Rightarrow> Inl TypeError
                | Some exports \<Rightarrow>
                    Inr \<lparr>codeDocs = docs, relativeImports = imports,
                         relativeExports = exports\<rparr>)))"

subsection \<open>The outer loop\<close>

text \<open>
  The branch for an identifier whose file is gone. \<open>findDocumentsByPath\<close> and
  \<open>deleteDocuments\<close> are awaited; \<open>this.onFileRemoved(filePath)\<close> is a bare call.
\<close>

definition forgetFile :: "string \<Rightarrow> string \<Rightarrow> Pass \<Rightarrow> Pass" where
  "forgetFile filePath relativePath s =
     emit (CallbackDetached (OnFileRemoved filePath))
       (s\<lparr>codeGraph := removeFileFromSymbolTable (codeGraph s) relativePath\<rparr>)"

definition removeDocument :: "env \<Rightarrow> string \<Rightarrow> Pass \<Rightarrow> unit step \<times> Pass" where
  "removeDocument e filePath s =
     (let relativePath = relative e (workspace s) filePath;
          s1 = emit (FindDocumentsByPath [relativePath]) s
      in case findDocumentsByPath e [relativePath] of
           Inl err \<Rightarrow> (Throw err, s1)
         | Inr found \<Rightarrow>
             (let relatedDocs = (case found of None \<Rightarrow> [] | Some ds \<Rightarrow> ds)
              in if relatedDocs \<noteq> []
                 then
                   (case deleteDocuments e (map docId relatedDocs) of
                      Some err \<Rightarrow> (Throw err, emit (DeleteDocuments (map docId relatedDocs)) s1)
                    | None \<Rightarrow>
                        (Next (),
                         forgetFile filePath relativePath
                           (emit (DeleteDocuments (map docId relatedDocs)) s1)))
                 else (Next (), forgetFile filePath relativePath s1)))"

text \<open>
  The end of an iteration of the outer loop: skeletonize the collected nodes, assemble the
  documents, save. The nodes come out of the map \<open>nodesToProcess\<close>, keyed by node id,
  so no two of them share an id, and fuel equal to their number suffices (lemmas
  \<open>skeletonizeCodeNodes_returns\<close> and \<open>processDocument_settles\<close> below). When
  \<open>skeletonizeCodeNodes\<close> throws, the iteration ends by that exception and leaves behind
  the tasks that still wait. The source's test \<open>!indexerResult\<close> never holds:
  \<open>embedCodeGraph\<close> returns an object or throws.
\<close>

definition persistNodes :: "env \<Rightarrow> bool \<Rightarrow> CodeGraphNode list \<Rightarrow> Pass \<Rightarrow> unit step \<times> Pass" where
  "persistNodes e fullBuild nodes s =
     (if nodes = [] then (Next (), s)
      else
        (case skeletonizeCodeNodes (length nodes) e (codeGraph s) nodes of
           None \<Rightarrow> (Diverge, s)
         | Some (Inl (err, t, r), evs) \<Rightarrow>
             (Throw err, s\<lparr>trace := trace s @ evs @ detached t\<rparr>)
         | Some (Inr skeletons, evs) \<Rightarrow>
             (let s1 = s\<lparr>trace := trace s @ evs\<rparr>
              in if skeletons = [] then (Next (), s1)
                 else
                   (case embedCodeGraph e (workspace s1) (codeGraph s1) skeletons of
                      Inl err \<Rightarrow> (Throw err, s1)
                    | Inr indexerResult \<Rightarrow>
                        (let s2 = emit (Save (codeDocs indexerResult)
                                          (relativeImports indexerResult)
                                          (relativeExports indexerResult)
                                          (symbolTable (codeGraph s1)) (\<not> fullBuild)) s1
                         in case save e (codeDocs indexerResult)
                                   (relativeImports indexerResult)
                                   (relativeExports indexerResult)
                                   (symbolTable (codeGraph s1)) (\<not> fullBuild) of
                              Some err \<Rightarrow> (Throw err, s2)
                            | None \<Rightarrow> (Next (), s2))))))"

text \<open>The body of the \<open>try\<close> block, for one identifier of the batch.\<close>

definition processDocument :: "env \<Rightarrow> bool \<Rightarrow> string \<Rightarrow> Pass \<Rightarrow> unit step \<times> Pass" where
  "processDocument e fullBuild documentUri s =
     (if documentUri \<in> set (alreadyVisited s) then (Next (), s)
      else
        (case fileURLToPath e documentUri of
           None \<Rightarrow> (Throw TypeError, s)
         | Some filePath \<Rightarrow>
             if \<not> existsSync e filePath
             then removeDocument e filePath (emit (ExistsSync filePath) s)
             else
               (case frontierLoop e
                       \<lparr>pending = [documentUri], relatedNodes = [documentUri],
                        nodesToProcess = []\<rparr>
                       (emit (ExistsSync filePath) s) of
                  (Next v, s1) \<Rightarrow> persistNodes e fullBuild (map snd (nodesToProcess v)) s1
                | (Return, s1) \<Rightarrow> (Return, s1)
                | (Throw err, s1) \<Rightarrow> (Throw err, s1)
                | (Diverge, s1) \<Rightarrow> (Diverge, s1))))"

text \<open>
  The outer loop with its \<open>try\<close>/\<open>catch\<close>: whatever the body throws is logged and the
  loop goes on with the next identifier; a \<open>return\<close> in the body leaves
  \<open>processDocuments\<close>.
\<close>

fun documentLoop :: "env \<Rightarrow> bool \<Rightarrow> string list \<Rightarrow> Pass \<Rightarrow> unit step \<times> Pass" where
  "documentLoop e fullBuild [] s = (Next (), s)"
| "documentLoop e fullBuild (documentUri # rest) s =
     (case processDocument e fullBuild documentUri s of
        (Next u, s1) \<Rightarrow> documentLoop e fullBuild rest s1
      | (Throw err, s1) \<Rightarrow> documentLoop e fullBuild rest s1
      | (Return, s1) \<Rightarrow> (Return, s1)
      | (Diverge, s1) \<Rightarrow> (Diverge, s1))"

text \<open>How the promise of \<open>processDocuments\<close> ends.\<close>

datatype settled = Resolved | Rejected error | NeverSettles

definition startPass :: "Indexer \<Rightarrow> Pass" where
  "startPass ix =
     Indexer.extend (ix\<lparr>syncing := True\<rparr>) (Pass.fields [] [])"

text \<open>
  \<open>processDocuments\<close>; \<open>None\<close> is an \<open>undefined\<close> argument. The flag is reset on the
  guard's path and after the loop; a \<open>return\<close> from inside the loop leaves it as it is.
\<close>

definition processDocuments ::
  "env \<Rightarrow> string list option \<Rightarrow> bool \<Rightarrow> Indexer \<Rightarrow> settled \<times> Indexer" where
  "processDocuments e documentUris fullBuild ix =
     (case documentUris of
        None \<Rightarrow> (Resolved, ix\<lparr>syncing := False\<rparr>)
      | Some uris \<Rightarrow>
          if workspace ix = [] \<or> uris = [] then (Resolved, ix\<lparr>syncing := False\<rparr>)
          else
            (case documentLoop e fullBuild uris (startPass ix) of
               (Next u, s) \<Rightarrow> (Resolved, (Indexer.truncate s)\<lparr>syncing := False\<rparr>)
             | (Return, s) \<Rightarrow> (Resolved, Indexer.truncate s)
             | (Throw err, s) \<Rightarrow> (Rejected err, Indexer.truncate s)
             | (Diverge, s) \<Rightarrow> (NeverSettles, Indexer.truncate s)))"

section \<open>Vocabulary for the proofs\<close>

text \<open>
  Classes of events, and relations between the state before and the state after a step:
  which fields a step leaves alone and which events it may add to the trace.
\<close>

fun lookupEvent :: "event \<Rightarrow> bool" where
  "lookupEvent (ReadDocument u) = True"
| "lookupEvent (Glob p c) = True"
| "lookupEvent ev = False"

fun frontierEvent :: "event \<Rightarrow> bool" where
  "frontierEvent (ReadDocument u) = True"
| "frontierEvent (Glob p c) = True"
| "frontierEvent (CreateNodes u) = True"
| "frontierEvent (CallbackDetached (OnFileProcessing p)) = True"
| "frontierEvent ev = False"

definition lookupStep :: "Pass \<Rightarrow> Pass \<Rightarrow> bool" where
  "lookupStep s s' \<longleftrightarrow>
     workspace s' = workspace s \<and> inclusionFilter s' = inclusionFilter s
     \<and> syncing s' = syncing s \<and> codeGraph s' = codeGraph s
     \<and> fileHashMap s' = fileHashMap s \<and> alreadyVisited s' = alreadyVisited s
     \<and> (\<exists>evs. trace s' = trace s @ evs \<and> list_all lookupEvent evs)"

definition frontierStep :: "Pass \<Rightarrow> Pass \<Rightarrow> bool" where
  "frontierStep s s' \<longleftrightarrow>
     workspace s' = workspace s \<and> inclusionFilter s' = inclusionFilter s
     \<and> syncing s' = syncing s
     \<and> set (alreadyVisited s) \<subseteq> set (alreadyVisited s')
     \<and> (\<exists>evs. trace s' = trace s @ evs \<and> list_all frontierEvent evs)"

fun isSave :: "event \<Rightarrow> bool" where
  "isSave (Save d i x t b) = True"
| "isSave ev = False"

fun isAwaited :: "event \<Rightarrow> bool" where
  "isAwaited (CallbackAwaited c) = True"
| "isAwaited ev = False"

fun isParse :: "event \<Rightarrow> bool" where
  "isParse (CreateNodes u) = True"
| "isParse ev = False"

definition passStep :: "nat \<Rightarrow> Pass \<Rightarrow> Pass \<Rightarrow> bool" where
  "passStep n s s' \<longleftrightarrow>
     workspace s' = workspace s \<and> inclusionFilter s' = inclusionFilter s
     \<and> syncing s' = syncing s
     \<and> (\<exists>evs. trace s' = trace s @ evs \<and> list_all (\<lambda>ev. \<not> isAwaited ev) evs
              \<and> length (filter isSave evs) \<le> n)"

text \<open>
  The relative path and the digest \<open>getFileFromSymbolTable\<close> computes for a URI, and the
  test "the stored digest of this document is the digest of its current text".
\<close>

definition relOf :: "env \<Rightarrow> string \<Rightarrow> string \<Rightarrow> string option" where
  "relOf e ws u = map_option (relative e ws) (fileURLToPath e u)"

definition digestOf :: "env \<Rightarrow> string \<Rightarrow> string option" where
  "digestOf e u = map_option (sha256hex e) (getTextDocumentFromUri e u)"

definition isCurrent :: "env \<Rightarrow> string \<Rightarrow> CodeGraph \<Rightarrow> string \<Rightarrow> bool" where
  "isCurrent e ws g u =
     (case relOf e ws u of
        None \<Rightarrow> False
      | Some rel \<Rightarrow>
          (case digestOf e u of
             None \<Rightarrow> False
           | Some h \<Rightarrow>
               (case map_of (symbolTable g) rel of None \<Rightarrow> False | Some f \<Rightarrow> sha f = h)))"

text \<open>
  Two facts of a file system that the table of documents need not have by itself: every
  readable URI that denotes the file of \<open>u\<close> (has its relative path) has the text digest
  of \<open>u\<close>; and the file of \<open>u\<close> is on disk under every path of the batch that denotes it.
\<close>

definition oneDigestPerFile :: "env \<Rightarrow> string \<Rightarrow> string \<Rightarrow> bool" where
  "oneDigestPerFile e ws u =
     list_all (\<lambda>dt. relOf e ws (fst dt) = relOf e ws u
                     \<longrightarrow> Some (sha256hex e (snd dt)) = digestOf e u)
       (documents e)"

definition onDisk :: "env \<Rightarrow> string \<Rightarrow> string \<Rightarrow> string list \<Rightarrow> bool" where
  "onDisk e ws u batch =
     list_all (\<lambda>d. case fileURLToPath e d of
                     None \<Rightarrow> True
                   | Some p \<Rightarrow> Some (relative e ws p) = relOf e ws u \<longrightarrow> existsSync e p)
       batch"

definition keeps :: "env \<Rightarrow> string \<Rightarrow> string \<Rightarrow> nat \<Rightarrow> Pass \<Rightarrow> bool" where
  "keeps e ws u n s \<longleftrightarrow>
     workspace s = ws \<and> isCurrent e ws (codeGraph s) u
     \<and> count_list (trace s) (CreateNodes u) = n"

definition afterRead :: "string \<Rightarrow> Pass \<Rightarrow> Pass" where
  "afterRead d s = s\<lparr>alreadyVisited := alreadyVisited s @ [d], trace := trace s @ [ReadDocument d]\<rparr>"

definition afterParse :: "string \<Rightarrow> string \<Rightarrow> Pass \<Rightarrow> Pass" where
  "afterParse rel d s =
     s\<lparr>alreadyVisited := alreadyVisited s @ [d],
       trace := trace s @ [ReadDocument d, CallbackDetached (OnFileProcessing rel),
                           ReadDocument d, CreateNodes d]\<rparr>"

text \<open>What \<open>shouldIncludeFile\<close> answers for a relative path in a given state.\<close>

definition included :: "env \<Rightarrow> string \<Rightarrow> 'a Indexer_scheme \<Rightarrow> bool" where
  "included e rel s \<longleftrightarrow>
     rel \<in> set (case matchedFilesCache s of
                  None \<Rightarrow> glob e (inclusionFilter s) (workspace s)
                | Some c \<Rightarrow> c)"

text \<open>
  A map from node ids to nodes as \<open>nodesToProcess\<close> is built: no key twice, and every
  node filed under its own id.
\<close>

definition keyed :: "(string \<times> CodeGraphNode) list \<Rightarrow> bool" where
  "keyed m = (distinct (map fst m) \<and> list_all (\<lambda>kv. nodeId (snd kv) = fst kv) m)"

section \<open>Vocabulary for the skeletonizer\<close>

text \<open>The calls a skeletonizer makes, and what a step of it may do to the state of the call.\<close>

fun skeletonEvent :: "event \<Rightarrow> bool" where
  "skeletonEvent (ReadDocument u) = True"
| "skeletonEvent (Generate n b) = True"
| "skeletonEvent ev = False"

definition skelStep :: "SkeletonRun \<Rightarrow> SkeletonRun \<Rightarrow> bool" where
  "skelStep r r' \<longleftrightarrow>
     (\<exists>evs. events r' = events r @ evs \<and> list_all skeletonEvent evs)
     \<and> (\<exists>sks. skeletonNodes r' = skeletonNodes r @ sks)"

text \<open>
  The nodes of a set that hang from a root: a node with no (or an empty) \<open>parentNodeId\<close>,
  and every node of the set whose \<open>parentNodeId\<close> is the id of such a node.
\<close>

inductive attached :: "CodeGraphNode list \<Rightarrow> CodeGraphNode \<Rightarrow> bool" for nodes where
  root: "n \<in> set nodes \<Longrightarrow> \<not> truthy (parentNodeId n) \<Longrightarrow> attached nodes n"
| child: "attached nodes p \<Longrightarrow> c \<in> set nodes \<Longrightarrow> truthy (parentNodeId c) \<Longrightarrow>
           parentNodeId c = Some (nodeId p) \<Longrightarrow> attached nodes c"

code_pred attached .

definition readable :: "env \<Rightarrow> CodeGraphNode \<Rightarrow> bool" where
  "readable e n \<longleftrightarrow> getTextDocumentFromUri e (uri (location n)) \<noteq> None"

text \<open>The children the source looks up for a node: \<open>parentNodeMap.get(node.id) || []\<close>.\<close>

definition childNodesOf :: "CodeGraphNode list \<Rightarrow> CodeGraphNode \<Rightarrow> CodeGraphNode list" where
  "childNodesOf nodes p =
     filter (\<lambda>n. truthy (parentNodeId n) \<and> parentNodeId n = Some (nodeId p)) nodes"

text \<open>
  The code block handed to the generator for a node, given the text of its document,
  its children and the skeletons collected so far.
\<close>

definition codeBlockFor ::
  "env \<Rightarrow> CodeGraphNode \<Rightarrow> string \<Rightarrow> CodeGraphNode list \<Rightarrow> SkeletonizedCodeGraphNode list
     \<Rightarrow> string" where
  "codeBlockFor e n t cs sks =
     (if cs \<noteq> []
      then mergeCodeNodeSummariesIntoParent e (location n)
             (getTextOfRange e t (rangeL (location n))) (map nodeId cs) sks
      else getTextOfRange e t (rangeL (location n)))"

text \<open>
  A node has contributed: the generator was called for it and the skeleton it returned
  is in the collection.
\<close>

definition producedIn ::
  "env \<Rightarrow> CodeGraph \<Rightarrow> CodeGraphNode \<Rightarrow> event list \<Rightarrow> SkeletonizedCodeGraphNode list \<Rightarrow> bool" where
  "producedIn e g n evs sks \<longleftrightarrow>
     (\<exists>blk sk path.
        fileURLToPath e (uri (location n)) = Some path
        \<and> Generate n blk \<in> set evs
        \<and> skeletonizeCodeGraphNode e path n blk (relatedNodesOf g (nodeId n)) = Inr sk
        \<and> sk \<in> set sks)"

definition cacheOk :: "env \<Rightarrow> SkeletonRun \<Rightarrow> bool" where
  "cacheOk e r \<longleftrightarrow>
     (\<forall>u d. map_of (textDocumentCache r) u = Some d \<longrightarrow> getTextDocumentFromUri e u = Some d)"

text \<open>The depth at which a node hangs from a root.\<close>

fun attachedAt :: "CodeGraphNode list \<Rightarrow> nat \<Rightarrow> CodeGraphNode \<Rightarrow> bool" where
  "attachedAt nodes 0 n = (n \<in> set nodes \<and> \<not> truthy (parentNodeId n))"
| "attachedAt nodes (Suc d) n =
     (n \<in> set nodes \<and> truthy (parentNodeId n)
      \<and> (\<exists>p\<in>set nodes. attachedAt nodes d p \<and> parentNodeId n = Some (nodeId p)))"

text \<open>
  What the calls made so far have in common: whenever the generator was called for a
  node, the node hangs from a root, its document is readable, the code block is the one
  for the node, its children and the skeletons collected until then, and every child
  with a readable document had contributed before the call.
\<close>

definition history :: "env \<Rightarrow> CodeGraph \<Rightarrow> CodeGraphNode list \<Rightarrow> SkeletonRun \<Rightarrow> bool" where
  "history e g nodes r \<longleftrightarrow>
     (\<forall>evs1 p blk rest. events r = evs1 @ Generate p blk # rest \<longrightarrow>
        attached nodes p
        \<and> (\<exists>sks1 rest' t.
              skeletonNodes r = sks1 @ rest'
              \<and> getTextDocumentFromUri e (uri (location p)) = Some t
              \<and> blk = codeBlockFor e p t (childNodesOf nodes p) sks1
              \<and> (\<forall>c\<in>set (childNodesOf nodes p). readable e c \<longrightarrow> producedIn e g c evs1 sks1)))"

definition sane :: "env \<Rightarrow> CodeGraph \<Rightarrow> CodeGraphNode list \<Rightarrow> SkeletonRun \<Rightarrow> bool" where
  "sane e g nodes r \<longleftrightarrow> cacheOk e r \<and> history e g nodes r"

text \<open>
  A task and the tasks below it are as the run of \<open>processNode\<close> leaves them: the tasks
  below a task are those of the children of its node; a task waits for its children
  only while none of them has thrown and one of them has not returned; it has gone on
  to its document or to the generator only when all of them have returned; and a task
  that has returned for a node with a readable document has contributed.
\<close>

fun taskOk :: "env \<Rightarrow> CodeGraph \<Rightarrow> CodeGraphNode list \<Rightarrow> SkeletonRun \<Rightarrow> task \<Rightarrow> bool" where
  "taskOk e g nodes r (Task n ph ts) =
     (attached nodes n \<and> map taskNode ts = childNodesOf nodes n
      \<and> (\<forall>t\<in>set ts. taskOk e g nodes r t)
      \<and> (case ph of
            Waiting \<Rightarrow> rejection ts = None \<and> \<not> list_all isDone ts
          | Reading \<Rightarrow> list_all isDone ts
          | Generating filePath blk \<Rightarrow>
              list_all isDone ts \<and> fileURLToPath e (uri (location n)) = Some filePath
              \<and> readable e n \<and> Generate n blk \<in> set (events r)
          | Done \<Rightarrow>
              list_all isDone ts
              \<and> (readable e n \<longrightarrow> producedIn e g n (events r) (skeletonNodes r))
          | Failed err \<Rightarrow> True))"

text \<open>
  A node has been gone through: a task for it has returned, in a state that the given
  state extends.
\<close>

definition completed ::
  "env \<Rightarrow> CodeGraph \<Rightarrow> CodeGraphNode list \<Rightarrow> SkeletonRun \<Rightarrow> CodeGraphNode \<Rightarrow> bool" where
  "completed e g nodes rf n \<longleftrightarrow>
     (\<exists>t rk. taskNode t = n \<and> isDone t \<and> taskOk e g nodes rk t \<and> skelStep rk rf)"


section \<open>A sample workspace\<close>

text \<open>
  A workspace \<open>/w\<close> with three readable files: \<open>a.ts\<close>, whose parse yields one node of
  its own and one node located in \<open>b.ts\<close>; \<open>b.ts\<close>, whose parse yields one node; and
  \<open>z.ts\<close>, whose parse yields no node. \<open>gone.ts\<close> is neither on disk nor readable.
  The digest of a text is the text itself. Of the tasks of the skeletonizer that wait at
  the same time, the one started first is served first.
\<close>

definition uriA :: string where "uriA = ''file:///w/a.ts''"

definition uriB :: string where "uriB = ''file:///w/b.ts''"

definition uriZ :: string where "uriZ = ''file:///w/z.ts''"

definition uriGone :: string where "uriGone = ''file:///w/gone.ts''"

definition mkNode :: "string \<Rightarrow> string \<Rightarrow> string option \<Rightarrow> CodeGraphNode" where
  "mkNode i u p =
     \<lparr>nodeId = i,
      location = \<lparr>uri = u,
                  rangeL = \<lparr>range_start = \<lparr>line = 0, character = 0\<rparr>,
                            range_end = \<lparr>line = 1, character = 0\<rparr>\<rparr>\<rparr>,
      parentNodeId = p\<rparr>"

definition sampleParser :: "string \<Rightarrow> string \<Rightarrow> error + ParseResult option" where
  "sampleParser u t =
     (if u = uriA
      then Inr (Some \<lparr>pr_importEdges = [(uriA @ ''#f'', [uriB @ ''#g''])],
                      pr_exportEdges = [],
                      pr_nodes = [mkNode (uriA @ ''#f'') uriA None,
                                  mkNode (uriB @ ''#g'') uriB None]\<rparr>)
      else if u = uriB
      then Inr (Some \<lparr>pr_importEdges = [], pr_exportEdges = [],
                      pr_nodes = [mkNode (uriB @ ''#g'') uriB None]\<rparr>)
      else Inr None)"

definition sampleEnv :: env where
  "sampleEnv =
     \<lparr>existsSync = (\<lambda>p. p \<in> set [''/w/a.ts'', ''/w/b.ts'', ''/w/z.ts'']),
      fileURLToPath = (\<lambda>u. if take 7 u = ''file://'' then Some (drop 7 u) else None),
      relative = (\<lambda>ws p. if take (length ws + 1) p = ws @ ''/''
                          then drop (length ws + 1) p else p),
      documents = [(uriA, ''import b''), (uriB, ''export g''), (uriZ, [])],
      getTextOfRange = (\<lambda>t r. t),
      sha256hex = (\<lambda>t. t),
      glob = (\<lambda>pat cwd. if pat = ''**/*.ts'' then [''a.ts'', ''b.ts'', ''z.ts''] else []),
      createNodesFromDocument = sampleParser,
      mergeCodeNodeSummariesIntoParent =
        (\<lambda>l raw ids sks. raw @ concat (map skeleton (filter (\<lambda>k. nodeId k \<in> set ids) sks))),
      skeletonizeCodeGraphNode =
        (\<lambda>fp n block rel.
           Inr (CodeGraphNode.extend n (SkeletonizedCodeGraphNode.fields (''sk:'' @ block)))),
      nextSettled = (\<lambda>t r. 0),
      convertIdToFilePath = (\<lambda>i l c ws. i),
      findDocumentsByPath = (\<lambda>ps. Inr (Some [])),
      deleteDocuments = (\<lambda>ids. None),
      save = (\<lambda>d i x t b. None)\<rparr>"

definition failingStore :: env where
  "failingStore = sampleEnv\<lparr>save := (\<lambda>d i x t b. Some PersistenceFailure)\<rparr>"

definition emptyGraph :: CodeGraph where
  "emptyGraph = \<lparr>symbolTable = [], importEdges = [], exportEdges = [], graphNodes = []\<rparr>"

definition freshIndexer :: Indexer where
  "freshIndexer =
     \<lparr>workspace = ''/w'', inclusionFilter = ''**/*.ts'', syncing = False,
      matchedFilesCache = None, codeGraph = emptyGraph, trace = []\<rparr>"

definition nodeB :: CodeGraphNode where
  "nodeB = mkNode (uriB @ ''#g'') uriB None"

definition skeletonB :: SkeletonizedCodeGraphNode where
  "skeletonB = CodeGraphNode.extend nodeB (SkeletonizedCodeGraphNode.fields ''sk:export g'')"

definition documentB :: Document where
  "documentB =
     \<lparr>pageContent = ''sk:export g'', docId = uriB @ ''#g'',
      metadata = \<lparr>md_filePath = uriB @ ''#g'', md_startRange = ''0-0'', md_endRange = ''1-0'',
                  md_relatedNodes = [], md_parentNodeId = None\<rparr>\<rparr>"

text \<open>The indexer after a pass over \<open>z.ts\<close>, whose parse yields no node.\<close>

definition afterPassOverZ :: Indexer where
  "afterPassOverZ = snd (processDocuments sampleEnv (Some [uriZ]) False freshIndexer)"

text \<open>The indexer after a pass over \<open>a.ts\<close>, which indexes \<open>a.ts\<close> and \<open>b.ts\<close>.\<close>

definition afterPassOverA :: Indexer where
  "afterPassOverA = snd (processDocuments sampleEnv (Some [uriA]) False freshIndexer)"




text \<open>
  Nodes in \<open>a.ts\<close>: a root, two children of the root, and a node whose
  \<open>parentNodeId\<close> names no node. And a child of the root located in the unreadable
  \<open>gone.ts\<close>.
\<close>

definition parentNode :: CodeGraphNode where
  "parentNode = mkNode (uriA @ ''#p'') uriA None"

definition childNode :: CodeGraphNode where
  "childNode = mkNode (uriA @ ''#c'') uriA (Some (uriA @ ''#p''))"

definition secondChild :: CodeGraphNode where
  "secondChild = mkNode (uriA @ ''#d'') uriA (Some (uriA @ ''#p''))"

definition orphanNode :: CodeGraphNode where
  "orphanNode = mkNode (uriA @ ''#o'') uriA (Some (uriA @ ''#missing''))"

definition childGone :: CodeGraphNode where
  "childGone = mkNode (uriGone @ ''#c'') uriGone (Some (uriA @ ''#p''))"

definition skeletonOf :: "CodeGraphNode \<Rightarrow> string \<Rightarrow> SkeletonizedCodeGraphNode" where
  "skeletonOf n block = CodeGraphNode.extend n (SkeletonizedCodeGraphNode.fields (''sk:'' @ block))"



text \<open>
  The sample workspace with an environment that serves the task started last first; and
  with a generator that fails for the first child of the root.
\<close>

definition lastFirst :: env where
  "lastFirst = sampleEnv\<lparr>nextSettled := (\<lambda>t r. pendingCount t - 1)\<rparr>"

definition failingGenerator :: env where
  "failingGenerator =
     sampleEnv\<lparr>skeletonizeCodeGraphNode :=
       (\<lambda>fp n block rel.
          if nodeId n = nodeId childNode then Inl GenerationFailure
          else skeletonizeCodeGraphNode sampleEnv fp n block rel)\<rparr>"


section \<open>What the skeletonizer does\<close>

subsection \<open>The partition of the nodes\<close>

lemma childrenOf_update:
  "childrenOf (AList.update p x pm) k = (if k = p then x else childrenOf pm k)"
  by (simp add: childrenOf_def update_conv')

lemma fold_addNode:
  "fold addNode ns (pm, roots) = (pm', roots') \<Longrightarrow>
     roots' = roots @ filter (\<lambda>n. \<not> truthy (parentNodeId n)) ns
     \<and> (\<forall>k. childrenOf pm' k =
              childrenOf pm k @ filter (\<lambda>n. truthy (parentNodeId n) \<and> parentNodeId n = Some k) ns)"
proof (induction ns arbitrary: pm roots)
  case Nil
  then show ?case by simp
next
  case (Cons n ns)
  obtain pm1 roots1 where one: "addNode n (pm, roots) = (pm1, roots1)"
    by (cases "addNode n (pm, roots)") auto
  with Cons.prems have "fold addNode ns (pm1, roots1) = (pm', roots')" by simp
  note ih = Cons.IH [OF this]
  show ?case
  proof (cases "truthy (parentNodeId n)")
    case True
    then obtain p where p: "parentNodeId n = Some p" "p \<noteq> []"
      by (auto simp: truthy_def split: option.splits)
    with one have "pm1 = AList.update p (childrenOf pm p @ [n]) pm" "roots1 = roots"
      by (auto simp: addNode_def)
    with ih True p show ?thesis by (auto simp: childrenOf_update)
  next
    case False
    with one have "pm1 = pm" "roots1 = roots @ [n]"
      by (auto simp: addNode_def truthy_def split: option.splits)
    with ih False show ?thesis by auto
  qed
qed

lemma partitionNodes_roots:
  "snd (partitionNodes nodes) = filter (\<lambda>n. \<not> truthy (parentNodeId n)) nodes"
  using fold_addNode [of nodes "[]" "[]" "fst (partitionNodes nodes)" "snd (partitionNodes nodes)"]
  by (simp add: partitionNodes_def)

lemma partitionNodes_children:
  "childrenOf (fst (partitionNodes nodes)) (nodeId p) = childNodesOf nodes p"
  using fold_addNode [of nodes "[]" "[]" "fst (partitionNodes nodes)" "snd (partitionNodes nodes)"]
  by (simp add: partitionNodes_def childNodesOf_def childrenOf_def)

lemma attached_child: "attached nodes p \<Longrightarrow> c \<in> set (childNodesOf nodes p) \<Longrightarrow> attached nodes c"
  by (auto simp: childNodesOf_def intro: attached.child)

lemma attached_roots: "n \<in> set (snd (partitionNodes nodes)) \<Longrightarrow> attached nodes n"
  by (auto simp: partitionNodes_roots intro: attached.root)

subsection \<open>Steps of the state\<close>

lemma skelStep_refl: "skelStep r r"
  by (simp add: skelStep_def)

lemma skelStep_trans: "skelStep r r1 \<Longrightarrow> skelStep r1 r2 \<Longrightarrow> skelStep r r2"
  by (auto simp: skelStep_def)

lemma skelStep_read: "skelStep r (r\<lparr>events := events r @ [ReadDocument u]\<rparr>)"
  by (simp add: skelStep_def)

lemma skelStep_generate: "skelStep r (r\<lparr>events := events r @ [Generate n b]\<rparr>)"
  by (simp add: skelStep_def)

lemma skelStep_cache: "skelStep r (r\<lparr>textDocumentCache := c\<rparr>)"
  by (simp add: skelStep_def)

lemma skelStep_push: "skelStep r (r\<lparr>skeletonNodes := skeletonNodes r @ [sk]\<rparr>)"
  by (simp add: skelStep_def)

lemma producedIn_mono:
  "producedIn e g n evs sks \<Longrightarrow> producedIn e g n (evs @ evs') (sks @ sks')"
  by (auto simp: producedIn_def)

lemma skelStep_produced:
  "skelStep r r' \<Longrightarrow> producedIn e g n (events r) (skeletonNodes r)
     \<Longrightarrow> producedIn e g n (events r') (skeletonNodes r')"
  by (auto simp: skelStep_def producedIn_mono)

lemma taskOk_mono: "taskOk e g nodes r t \<Longrightarrow> skelStep r r' \<Longrightarrow> taskOk e g nodes r' t"
proof (induction t)
  case (Task n ph ts)
  from Task.prems have sub: "\<forall>t\<in>set ts. taskOk e g nodes r' t"
    using Task.IH by auto
  from Task.prems(2) have ev: "set (events r) \<subseteq> set (events r')"
    by (auto simp: skelStep_def)
  from Task.prems sub ev skelStep_produced [OF Task.prems(2)] show ?case
    by (cases ph) auto
qed

lemma rejection_None: "rejection ts = None \<longleftrightarrow> (\<forall>t\<in>set ts. \<forall>err. taskPhase t \<noteq> Failed err)"
  by (induction ts) (auto split: phase.splits)

lemma done_produced:
  "taskOk e g nodes r t \<Longrightarrow> isDone t \<Longrightarrow> readable e (taskNode t)
     \<Longrightarrow> producedIn e g (taskNode t) (events r) (skeletonNodes r)"
  by (cases t) (auto simp: isDone_def)

lemma children_produced:
  assumes "\<forall>t\<in>set ts. taskOk e g nodes r t" and "list_all isDone ts"
    and "c \<in> set (map taskNode ts)" and "readable e c"
  shows "producedIn e g c (events r) (skeletonNodes r)"
proof -
  from assms(3) obtain t where t: "t \<in> set ts" "taskNode t = c" by auto
  with assms(1,2,4) done_produced [of e g nodes r t] show ?thesis
    by (auto simp: list_all_iff)
qed

subsection \<open>The calls made so far\<close>

lemma snoc_split:
  assumes "xs @ [y] = evs1 @ z # rest"
  shows "(\<exists>rest0. xs = evs1 @ z # rest0 \<and> rest = rest0 @ [y]) \<or> (evs1 = xs \<and> z = y \<and> rest = [])"
proof (cases rest rule: rev_cases)
  case Nil
  with assms show ?thesis by simp
next
  case (snoc rest0 y')
  with assms have "xs @ [y] = (evs1 @ z # rest0) @ [y']" by simp
  then have "xs = evs1 @ z # rest0" "y = y'" by simp_all
  with snoc show ?thesis by simp
qed

lemma historyD:
  "history e g nodes r \<Longrightarrow> events r = evs1 @ Generate p blk # rest \<Longrightarrow>
     attached nodes p
     \<and> (\<exists>sks1 rest' t.
           skeletonNodes r = sks1 @ rest'
           \<and> getTextDocumentFromUri e (uri (location p)) = Some t
           \<and> blk = codeBlockFor e p t (childNodesOf nodes p) sks1
           \<and> (\<forall>c\<in>set (childNodesOf nodes p). readable e c \<longrightarrow> producedIn e g c evs1 sks1))"
  unfolding history_def by blast

lemma history_empty: "history e g nodes \<lparr>textDocumentCache = [], skeletonNodes = [], events = []\<rparr>"
  by (simp add: history_def)

lemma history_cache [simp]: "history e g nodes (r\<lparr>textDocumentCache := c\<rparr>) = history e g nodes r"
  by (simp add: history_def)

lemma history_read:
  assumes "history e g nodes r"
  shows "history e g nodes (r\<lparr>events := events r @ [ReadDocument u]\<rparr>)"
  unfolding history_def
proof (intro allI impI)
  fix evs1 p blk rest
  assume "events (r\<lparr>events := events r @ [ReadDocument u]\<rparr>) = evs1 @ Generate p blk # rest"
  then have "events r @ [ReadDocument u] = evs1 @ Generate p blk # rest" by simp
  from snoc_split [OF this] obtain rest0 where "events r = evs1 @ Generate p blk # rest0"
    by auto
  from historyD [OF assms this] show "attached nodes p
        \<and> (\<exists>sks1 rest' t.
              skeletonNodes (r\<lparr>events := events r @ [ReadDocument u]\<rparr>) = sks1 @ rest'
              \<and> getTextDocumentFromUri e (uri (location p)) = Some t
              \<and> blk = codeBlockFor e p t (childNodesOf nodes p) sks1
              \<and> (\<forall>c\<in>set (childNodesOf nodes p). readable e c \<longrightarrow> producedIn e g c evs1 sks1))"
    by simp
qed

lemma history_push:
  assumes "history e g nodes r"
  shows "history e g nodes (r\<lparr>skeletonNodes := skeletonNodes r @ [sk]\<rparr>)"
  unfolding history_def
proof (intro allI impI)
  fix evs1 p blk rest
  assume "events (r\<lparr>skeletonNodes := skeletonNodes r @ [sk]\<rparr>) = evs1 @ Generate p blk # rest"
  then have "events r = evs1 @ Generate p blk # rest" by simp
  from historyD [OF assms this] obtain sks1 rest' t where h: "attached nodes p"
    "skeletonNodes r = sks1 @ rest'"
    "getTextDocumentFromUri e (uri (location p)) = Some t"
    "blk = codeBlockFor e p t (childNodesOf nodes p) sks1"
    "\<forall>c\<in>set (childNodesOf nodes p). readable e c \<longrightarrow> producedIn e g c evs1 sks1"
    by blast
  from h(2) have "skeletonNodes (r\<lparr>skeletonNodes := skeletonNodes r @ [sk]\<rparr>) = sks1 @ (rest' @ [sk])"
    by simp
  with h show "attached nodes p
        \<and> (\<exists>sks1 rest' t.
              skeletonNodes (r\<lparr>skeletonNodes := skeletonNodes r @ [sk]\<rparr>) = sks1 @ rest'
              \<and> getTextDocumentFromUri e (uri (location p)) = Some t
              \<and> blk = codeBlockFor e p t (childNodesOf nodes p) sks1
              \<and> (\<forall>c\<in>set (childNodesOf nodes p). readable e c \<longrightarrow> producedIn e g c evs1 sks1))"
    by blast
qed

lemma history_generate:
  assumes h: "history e g nodes r" and att: "attached nodes p"
    and t: "getTextDocumentFromUri e (uri (location p)) = Some t"
    and ch: "\<forall>c\<in>set (childNodesOf nodes p). readable e c
               \<longrightarrow> producedIn e g c (events r) (skeletonNodes r)"
  shows "history e g nodes
           (r\<lparr>events := events r
                 @ [Generate p (codeBlockFor e p t (childNodesOf nodes p) (skeletonNodes r))]\<rparr>)"
  unfolding history_def
proof (intro allI impI)
  fix evs1 q blk rest
  let ?r' = "r\<lparr>events := events r
                 @ [Generate p (codeBlockFor e p t (childNodesOf nodes p) (skeletonNodes r))]\<rparr>"
  assume "events ?r' = evs1 @ Generate q blk # rest"
  then have "events r @ [Generate p (codeBlockFor e p t (childNodesOf nodes p) (skeletonNodes r))]
             = evs1 @ Generate q blk # rest" by simp
  from snoc_split [OF this]
  consider (old) rest0 where "events r = evs1 @ Generate q blk # rest0"
    | (new) "evs1 = events r" "q = p"
        "blk = codeBlockFor e p t (childNodesOf nodes p) (skeletonNodes r)"
    by auto
  then show "attached nodes q
        \<and> (\<exists>sks1 rest' t.
              skeletonNodes ?r' = sks1 @ rest'
              \<and> getTextDocumentFromUri e (uri (location q)) = Some t
              \<and> blk = codeBlockFor e q t (childNodesOf nodes q) sks1
              \<and> (\<forall>c\<in>set (childNodesOf nodes q). readable e c \<longrightarrow> producedIn e g c evs1 sks1))"
  proof cases
    case old
    from historyD [OF h old] show ?thesis by simp
  next
    case new
    have "skeletonNodes ?r' = skeletonNodes r @ []" by simp
    with new att t ch show ?thesis by blast
  qed
qed

lemma cacheOk_empty: "cacheOk e \<lparr>textDocumentCache = [], skeletonNodes = [], events = []\<rparr>"
  by (simp add: cacheOk_def)

lemma cacheOk_update:
  "cacheOk e r \<Longrightarrow> getTextDocumentFromUri e u = Some d
     \<Longrightarrow> cacheOk e (r\<lparr>textDocumentCache := AList.update u d (textDocumentCache r)\<rparr>)"
  by (auto simp: cacheOk_def update_conv')

lemma cacheOk_events [simp]: "cacheOk e (r\<lparr>events := evs\<rparr>) = cacheOk e r"
  by (simp add: cacheOk_def)

lemma cacheOk_skeletons [simp]: "cacheOk e (r\<lparr>skeletonNodes := sks\<rparr>) = cacheOk e r"
  by (simp add: cacheOk_def)

lemma sane_empty: "sane e g nodes \<lparr>textDocumentCache = [], skeletonNodes = [], events = []\<rparr>"
  by (simp add: sane_def cacheOk_empty history_empty)

subsection \<open>One step of a task\<close>

lemma callGenerator_ok:
  assumes sane: "sane e g nodes r" and att: "attached nodes n"
    and kids: "map taskNode ts = childNodesOf nodes n"
    and sub: "\<forall>t\<in>set ts. taskOk e g nodes r t" and fin: "list_all isDone ts"
    and doc: "getTextDocumentFromUri e (uri (location n)) = Some d"
    and call: "callGenerator e n (map taskNode ts) d r = (ph, r')"
  shows "skelStep r r' \<and> sane e g nodes r' \<and> taskOk e g nodes r' (Task n ph ts)"
proof (cases "fileURLToPath e (uri (location n))")
  case None
  with call have "ph = Failed TypeError" "r' = r" by (simp_all add: callGenerator_def)
  with sane att kids sub show ?thesis by (simp add: skelStep_refl)
next
  case (Some path)
  define blk where "blk = codeBlockFor e n d (childNodesOf nodes n) (skeletonNodes r)"
  from Some call kids have ph: "ph = Generating path blk"
    and r': "r' = r\<lparr>events := events r @ [Generate n blk]\<rparr>"
    by (simp_all add: callGenerator_def Let_def blk_def codeBlockFor_def)
  have st: "skelStep r r'" unfolding r' by (rule skelStep_generate)
  have ch: "\<forall>c\<in>set (childNodesOf nodes n). readable e c
               \<longrightarrow> producedIn e g c (events r) (skeletonNodes r)"
    using children_produced [OF sub fin] kids by auto
  from sane have "history e g nodes r" by (simp add: sane_def)
  from history_generate [OF this att doc ch] have "history e g nodes r'"
    by (simp add: r' blk_def)
  with sane have sane': "sane e g nodes r'" by (simp add: sane_def r')
  from sub st have "\<forall>t\<in>set ts. taskOk e g nodes r' t" by (auto intro: taskOk_mono)
  with att kids fin Some doc have "taskOk e g nodes r' (Task n ph ts)"
    by (simp add: ph r' readable_def)
  with st sane' show ?thesis by simp
qed

lemma skeletonizeNode_ok:
  assumes sane: "sane e g nodes r" and att: "attached nodes n"
    and kids: "map taskNode ts = childNodesOf nodes n"
    and sub: "\<forall>t\<in>set ts. taskOk e g nodes r t" and fin: "list_all isDone ts"
    and call: "skeletonizeNode e n (map taskNode ts) r = (ph, r')"
  shows "skelStep r r' \<and> sane e g nodes r' \<and> taskOk e g nodes r' (Task n ph ts)"
proof (cases "map_of (textDocumentCache r) (uri (location n))")
  case None
  with call have ph: "ph = Reading"
    and r': "r' = r\<lparr>events := events r @ [ReadDocument (uri (location n))]\<rparr>"
    by (simp_all add: skeletonizeNode_def)
  have st: "skelStep r r'" unfolding r' by (rule skelStep_read)
  from sane have "sane e g nodes r'" by (simp add: sane_def r' history_read)
  moreover from sub st have "\<forall>t\<in>set ts. taskOk e g nodes r' t" by (auto intro: taskOk_mono)
  ultimately show ?thesis using st att kids fin by (simp add: ph)
next
  case (Some d)
  with sane have doc: "getTextDocumentFromUri e (uri (location n)) = Some d"
    by (simp add: sane_def cacheOk_def)
  from Some call have "callGenerator e n (map taskNode ts) d r = (ph, r')"
    by (simp add: skeletonizeNode_def)
  from callGenerator_ok [OF sane att kids sub fin doc this] show ?thesis .
qed

lemma documentArrived_ok:
  assumes sane: "sane e g nodes r" and ok: "taskOk e g nodes r (Task n Reading ts)"
    and call: "documentArrived e n (map taskNode ts) r = (ph, r')"
  shows "skelStep r r' \<and> sane e g nodes r' \<and> taskOk e g nodes r' (Task n ph ts)"
proof (cases "getTextDocumentFromUri e (uri (location n))")
  case None
  with call have "ph = Done" "r' = r" by (simp_all add: documentArrived_def)
  with sane ok None show ?thesis by (simp add: skelStep_refl readable_def)
next
  case (Some d)
  define r1 where "r1 = r\<lparr>textDocumentCache := AList.update (uri (location n)) d (textDocumentCache r)\<rparr>"
  have st1: "skelStep r r1" unfolding r1_def by (rule skelStep_cache)
  from sane Some have sane1: "sane e g nodes r1"
    by (simp add: sane_def r1_def cacheOk_update)
  from ok have att: "attached nodes n" and kids: "map taskNode ts = childNodesOf nodes n"
    and fin: "list_all isDone ts" and sub: "\<forall>t\<in>set ts. taskOk e g nodes r t"
    by simp_all
  from sub st1 have sub1: "\<forall>t\<in>set ts. taskOk e g nodes r1 t" by (auto intro: taskOk_mono)
  from Some call have "callGenerator e n (map taskNode ts) d r1 = (ph, r')"
    by (simp add: documentArrived_def r1_def)
  from callGenerator_ok [OF sane1 att kids sub1 fin Some this] st1 show ?thesis
    by (auto intro: skelStep_trans)
qed

lemma skeletonArrived_ok:
  assumes sane: "sane e g nodes r" and ok: "taskOk e g nodes r (Task n (Generating path blk) ts)"
    and call: "skeletonArrived e g n path blk r = (ph, r')"
  shows "skelStep r r' \<and> sane e g nodes r' \<and> taskOk e g nodes r' (Task n ph ts)"
proof (cases "skeletonizeCodeGraphNode e path n blk (relatedNodesOf g (nodeId n))")
  case (Inl err)
  with call have "ph = Failed err" "r' = r" by (simp_all add: skeletonArrived_def)
  with sane ok show ?thesis by (simp add: skelStep_refl)
next
  case (Inr sk)
  with call have ph: "ph = Done" and r': "r' = r\<lparr>skeletonNodes := skeletonNodes r @ [sk]\<rparr>"
    by (simp_all add: skeletonArrived_def)
  have st: "skelStep r r'" unfolding r' by (rule skelStep_push)
  from sane have sane': "sane e g nodes r'" by (simp add: sane_def r' history_push)
  from ok st have sub: "\<forall>t\<in>set ts. taskOk e g nodes r' t" by (auto intro: taskOk_mono)
  from ok Inr have "producedIn e g n (events r') (skeletonNodes r')"
    by (auto simp: producedIn_def r')
  with ok sub have "taskOk e g nodes r' (Task n ph ts)" by (simp add: ph)
  with st sane' show ?thesis by simp
qed

lemma childrenSettled_ok:
  assumes sane: "sane e g nodes r" and att: "attached nodes n"
    and kids: "map taskNode ts = childNodesOf nodes n"
    and sub: "\<forall>t\<in>set ts. taskOk e g nodes r t"
    and call: "childrenSettled e n ts r = (ph, r')"
  shows "skelStep r r' \<and> sane e g nodes r' \<and> taskOk e g nodes r' (Task n ph ts)"
proof (cases "rejection ts")
  case (Some err)
  with call have "ph = Failed err" "r' = r" by (simp_all add: childrenSettled_def)
  with sane att kids sub show ?thesis by (simp add: skelStep_refl)
next
  case None
  show ?thesis
  proof (cases "list_all isDone ts")
    case True
    with None call have "skeletonizeNode e n (map taskNode ts) r = (ph, r')"
      by (simp add: childrenSettled_def)
    from skeletonizeNode_ok [OF sane att kids sub True this] show ?thesis .
  next
    case False
    with None call have "ph = Waiting" "r' = r" by (simp_all add: childrenSettled_def)
    with sane att kids sub None False show ?thesis by (simp add: skelStep_refl)
  qed
qed

subsection \<open>Starting and settling tasks\<close>

lemma processNode_ok:
  "processNode k e pm n r = Some (t, r') \<Longrightarrow> pm = fst (partitionNodes nodes) \<Longrightarrow>
     attached nodes n \<Longrightarrow> sane e g nodes r \<Longrightarrow>
     skelStep r r' \<and> sane e g nodes r' \<and> taskOk e g nodes r' t \<and> taskNode t = n"
  and processChildren_ok:
  "processChildren k e pm cs r = Some (ts, r') \<Longrightarrow> pm = fst (partitionNodes nodes) \<Longrightarrow>
     \<forall>c\<in>set cs. attached nodes c \<Longrightarrow> sane e g nodes r \<Longrightarrow>
     skelStep r r' \<and> sane e g nodes r' \<and> (\<forall>t\<in>set ts. taskOk e g nodes r' t)
     \<and> map taskNode ts = cs"
proof (induction k e pm n r and k e pm cs r arbitrary: t r' and ts r'
    rule: processNode_processChildren.induct)
  case (1 e pm n r)
  then show ?case by simp
next
  case (2 k e pm n r)
  have ch: "childrenOf pm (nodeId n) = childNodesOf nodes n"
    by (simp add: "2.prems"(2) partitionNodes_children)
  from "2.prems"(1) obtain ts r1 ph where
    pc: "processChildren k e pm (childrenOf pm (nodeId n)) r = Some (ts, r1)"
    and cs: "childrenSettled e n ts r1 = (ph, r')" and t: "t = Task n ph ts"
    by (auto split: option.splits prod.splits)
  have "\<forall>c\<in>set (childrenOf pm (nodeId n)). attached nodes c"
    using ch attached_child [OF "2.prems"(3)] by simp
  from "2.IH" [OF pc "2.prems"(2) this "2.prems"(4)]
  have one: "skelStep r r1" "sane e g nodes r1" "\<forall>t\<in>set ts. taskOk e g nodes r1 t"
    "map taskNode ts = childNodesOf nodes n"
    using ch by simp_all
  from childrenSettled_ok [OF one(2) "2.prems"(3) one(4) one(3) cs] one(1) t
  show ?case by (auto intro: skelStep_trans)
next
  case (3 k e pm r)
  then show ?case by (simp add: skelStep_refl)
next
  case (4 k e pm c cs r)
  from "4.prems"(1) obtain t1 r1 ts1 where
    pn: "processNode k e pm c r = Some (t1, r1)"
    and pc: "processChildren k e pm cs r1 = Some (ts1, r')" and ts: "ts = t1 # ts1"
    by (auto split: option.splits prod.splits)
  from "4.IH"(1) [OF pn "4.prems"(2) _ "4.prems"(4)] "4.prems"(3)
  have one: "skelStep r r1" "sane e g nodes r1" "taskOk e g nodes r1 t1" "taskNode t1 = c"
    by simp_all
  from "4.IH"(2) [OF pn refl pc "4.prems"(2) _ one(2)] "4.prems"(3)
  have two: "skelStep r1 r'" "sane e g nodes r'" "\<forall>t\<in>set ts1. taskOk e g nodes r' t"
    "map taskNode ts1 = cs"
    by simp_all
  from one two ts taskOk_mono [OF one(3) two(1)] show ?case
    by (auto intro: skelStep_trans)
qed

lemma settle_ok:
  "settle e g i t r = (t', r') \<Longrightarrow> taskOk e g nodes r t \<Longrightarrow> sane e g nodes r \<Longrightarrow>
     skelStep r r' \<and> sane e g nodes r' \<and> taskOk e g nodes r' t' \<and> taskNode t' = taskNode t"
  and settleAmong_ok:
  "settleAmong e g i ts r = (ts', r') \<Longrightarrow> \<forall>t\<in>set ts. taskOk e g nodes r t \<Longrightarrow>
     sane e g nodes r \<Longrightarrow>
     skelStep r r' \<and> sane e g nodes r' \<and> (\<forall>t\<in>set ts'. taskOk e g nodes r' t)
     \<and> map taskNode ts' = map taskNode ts"
proof (induction e g i t r and e g i ts r arbitrary: t' r' and ts' r'
    rule: settle_settleAmong.induct)
  case (1 e g i n ph ts r)
  from "1.prems"(2) have att: "attached nodes n"
    and kids: "map taskNode ts = childNodesOf nodes n"
    and sub: "\<forall>t\<in>set ts. taskOk e g nodes r t"
    by simp_all
  show ?case
  proof (cases ph)
    case Waiting
    with "1.prems"(1) obtain ts1 r1 ph' where
      sa: "settleAmong e g i ts r = (ts1, r1)"
      and cs: "childrenSettled e n ts1 r1 = (ph', r')" and t': "t' = Task n ph' ts1"
      by (auto split: prod.splits)
    from "1.IH"(1) [OF Waiting sa sub "1.prems"(3)]
    have one: "skelStep r r1" "sane e g nodes r1" "\<forall>t\<in>set ts1. taskOk e g nodes r1 t"
      "map taskNode ts1 = map taskNode ts"
      by simp_all
    from one(4) kids have kids1: "map taskNode ts1 = childNodesOf nodes n" by simp
    from childrenSettled_ok [OF one(2) att kids1 one(3) cs] one(1) t'
    show ?thesis by (auto intro: skelStep_trans)
  next
    case Reading
    with "1.prems"(1) obtain ph' where
      da: "documentArrived e n (map taskNode ts) r = (ph', r')" and t': "t' = Task n ph' ts"
      by (auto split: prod.splits)
    from documentArrived_ok [OF "1.prems"(3) "1.prems"(2) [unfolded Reading] da] t'
    show ?thesis by simp
  next
    case (Generating path blk)
    with "1.prems"(1) obtain ph' where
      sk: "skeletonArrived e g n path blk r = (ph', r')" and t': "t' = Task n ph' ts"
      by (auto split: prod.splits)
    from skeletonArrived_ok [OF "1.prems"(3) "1.prems"(2) [unfolded Generating] sk] t'
    show ?thesis by simp
  next
    case Done
    with "1.prems" show ?thesis by (simp add: skelStep_refl)
  next
    case (Failed err)
    with "1.prems"(1) obtain ts1 where
      sa: "settleAmong e g i ts r = (ts1, r')" and t': "t' = Task n (Failed err) ts1"
      by (auto split: prod.splits)
    from "1.IH"(2) [OF Failed sa sub "1.prems"(3)]
    have one: "skelStep r r'" "sane e g nodes r'" "\<forall>t\<in>set ts1. taskOk e g nodes r' t"
      "map taskNode ts1 = map taskNode ts"
      by simp_all
    with att kids t' show ?thesis by simp
  qed
next
  case (2 e g i r)
  then show ?case by (simp add: skelStep_refl)
next
  case (3 e g i t ts r)
  show ?case
  proof (cases "i < pendingCount t")
    case True
    with "3.prems"(1) obtain t1 where
      st: "settle e g i t r = (t1, r')" and ts': "ts' = t1 # ts"
      by (auto split: prod.splits)
    from "3.IH"(1) [OF True st _ "3.prems"(3)] "3.prems"(2)
    have one: "skelStep r r'" "sane e g nodes r'" "taskOk e g nodes r' t1"
      "taskNode t1 = taskNode t"
      by simp_all
    from "3.prems"(2) one(1) have "\<forall>x\<in>set ts. taskOk e g nodes r' x"
      by (auto intro: taskOk_mono)
    with one ts' show ?thesis by simp
  next
    case False
    with "3.prems"(1) obtain ts1 where
      sa: "settleAmong e g (i - pendingCount t) ts r = (ts1, r')" and ts': "ts' = t # ts1"
      by (auto split: prod.splits)
    from "3.IH"(2) [OF False sa _ "3.prems"(3)] "3.prems"(2)
    have one: "skelStep r r'" "sane e g nodes r'" "\<forall>x\<in>set ts1. taskOk e g nodes r' x"
      "map taskNode ts1 = map taskNode ts"
      by simp_all
    from "3.prems"(2) one(1) have "taskOk e g nodes r' t" by (auto intro: taskOk_mono)
    with one ts' show ?thesis by simp
  qed
qed

subsection \<open>Waiting ends\<close>

lemma waiting_has_pending:
  "taskOk e g nodes r t \<Longrightarrow> \<not> hasEnded t \<Longrightarrow> 0 < pendingCount t"
proof (induction t)
  case (Task n ph ts)
  show ?case
  proof (cases ph)
    case Waiting
    with Task.prems(1) have rj: "rejection ts = None" and nd: "\<not> list_all isDone ts"
      and sub: "\<forall>t\<in>set ts. taskOk e g nodes r t"
      by simp_all
    from nd obtain t where t: "t \<in> set ts" "\<not> isDone t" by (auto simp: list_all_iff)
    from rj t(1) have "\<forall>err. taskPhase t \<noteq> Failed err" by (simp add: rejection_None)
    with t(2) have "\<not> hasEnded t"
      by (auto simp: hasEnded_def isDone_def split: phase.splits)
    from Task.IH [OF t(1) _ this] sub t(1) have "0 < pendingCount t" by simp
    with t(1) have "0 < sum_list (map pendingCount ts)"
      by (induction ts) auto
    with Waiting show ?thesis by simp
  qed (use Task.prems in \<open>simp_all add: hasEnded_def\<close>)
qed

lemma awaitTask_stop:
  "pendingCount t = 0 \<or> (\<not> u \<and> hasEnded t) \<Longrightarrow> awaitTask e g u t r = (t, r)"
  by (subst awaitTask.simps) simp

lemma awaitTask_go:
  "\<not> (pendingCount t = 0 \<or> (\<not> u \<and> hasEnded t)) \<Longrightarrow>
     settle e g (nextSettled e t r mod pendingCount t) t r = (t1, r1) \<Longrightarrow>
     awaitTask e g u t r = awaitTask e g u t1 r1"
  by (subst awaitTask.simps) auto

lemma awaitTask_ok:
  "awaitTask e g u t r = (t', r') \<Longrightarrow> taskOk e g nodes r t \<Longrightarrow> sane e g nodes r \<Longrightarrow>
     skelStep r r' \<and> sane e g nodes r' \<and> taskOk e g nodes r' t' \<and> taskNode t' = taskNode t
     \<and> hasEnded t'"
proof (induction e g u t r arbitrary: t' r' rule: awaitTask.induct)
  case (1 e g u t r)
  show ?case
  proof (cases "pendingCount t = 0 \<or> (\<not> u \<and> hasEnded t)")
    case True
    with "1.prems"(1) have same: "t' = t" "r' = r" by (simp_all add: awaitTask_stop)
    from True waiting_has_pending [OF "1.prems"(2)] have "hasEnded t"
      by (cases "hasEnded t") auto
    with same "1.prems" show ?thesis by (simp add: skelStep_refl)
  next
    case False
    obtain t1 r1 where st: "settle e g (nextSettled e t r mod pendingCount t) t r = (t1, r1)"
      by (cases "settle e g (nextSettled e t r mod pendingCount t) t r") auto
    from awaitTask_go [OF False st] "1.prems"(1) have aw: "awaitTask e g u t1 r1 = (t', r')"
      by simp
    from settle_ok [OF st "1.prems"(2,3)]
    have one: "skelStep r r1" "sane e g nodes r1" "taskOk e g nodes r1 t1"
      "taskNode t1 = taskNode t"
      by simp_all
    from "1.IH" [OF False st [symmetric] aw one(3) one(2)] one(1,4) show ?thesis
      by (auto intro: skelStep_trans)
  qed
qed

lemma completed_mono: "completed e g nodes r n \<Longrightarrow> skelStep r r' \<Longrightarrow> completed e g nodes r' n"
  by (auto simp: completed_def intro: skelStep_trans)

lemma processRoots_ok:
  "processRoots fuel e g pm roots r = Some (res, r') \<Longrightarrow> pm = fst (partitionNodes nodes) \<Longrightarrow>
     \<forall>n\<in>set roots. attached nodes n \<Longrightarrow> sane e g nodes r \<Longrightarrow>
     skelStep r r' \<and> sane e g nodes r'
     \<and> (res = Inr () \<longrightarrow> (\<forall>n\<in>set roots. completed e g nodes r' n))
     \<and> (\<forall>err t. res = Inl (err, t) \<longrightarrow> taskOk e g nodes r' t)"
proof (induction roots arbitrary: r)
  case Nil
  then show ?case by (auto simp: skelStep_refl)
next
  case (Cons n roots)
  from Cons.prems(1) obtain t r1 where pn: "processNode fuel e pm n r = Some (t, r1)"
    by (auto split: option.splits)
  obtain t' r2 where aw: "awaitTask e g False t r1 = (t', r2)"
    by (cases "awaitTask e g False t r1") auto
  from processNode_ok [OF pn Cons.prems(2) _ Cons.prems(4)] Cons.prems(3)
  have one: "skelStep r r1" "sane e g nodes r1" "taskOk e g nodes r1 t" "taskNode t = n"
    by simp_all
  from awaitTask_ok [OF aw one(3) one(2)]
  have two: "skelStep r1 r2" "sane e g nodes r2" "taskOk e g nodes r2 t'"
    "taskNode t' = taskNode t" "hasEnded t'"
    by simp_all
  show ?case
  proof (cases "taskPhase t'")
    case Done
    with Cons.prems(1) pn aw have rest: "processRoots fuel e g pm roots r2 = Some (res, r')"
      by simp
    from Cons.IH [OF rest Cons.prems(2) _ two(2)] Cons.prems(3)
    have three: "skelStep r2 r'" "sane e g nodes r'"
      "res = Inr () \<longrightarrow> (\<forall>n\<in>set roots. completed e g nodes r' n)"
      "\<forall>err t. res = Inl (err, t) \<longrightarrow> taskOk e g nodes r' t"
      by simp_all
    from Done two(3,4) one(4) three(1) have "completed e g nodes r' n"
      by (auto simp: completed_def isDone_def)
    with one(1) two(1) three show ?thesis
      by (auto intro: skelStep_trans)
  next
    case (Failed err)
    with Cons.prems(1) pn aw have "res = Inl (err, t')" "r' = r2" by simp_all
    with one(1) two(1,2,3) show ?thesis by (auto intro: skelStep_trans)
  qed (use two(5) in \<open>simp_all add: hasEnded_def\<close>)
qed

subsection \<open>Every node that hangs from a root is gone through\<close>

lemma completed_children:
  assumes "completed e g nodes rf p" and "c \<in> set (childNodesOf nodes p)"
  shows "completed e g nodes rf c"
proof -
  from assms(1) obtain t rk where t: "taskNode t = p" "isDone t" "taskOk e g nodes rk t"
    "skelStep rk rf"
    by (auto simp: completed_def)
  obtain n ph ts where tt: "t = Task n ph ts" by (cases t)
  with t have ph: "ph = Done" and n: "n = p" by (simp_all add: isDone_def)
  from t(3) tt ph n have kids: "map taskNode ts = childNodesOf nodes p"
    and sub: "\<forall>x\<in>set ts. taskOk e g nodes rk x" and fin: "list_all isDone ts"
    by simp_all
  from assms(2) kids obtain x where x: "x \<in> set ts" "taskNode x = c"
    by (metis (no_types, lifting) imageE list.set_map)
  with sub fin have "taskOk e g nodes rk x" "isDone x" by (auto simp: list_all_iff)
  with x t(4) show ?thesis by (auto simp: completed_def)
qed

lemma attached_completed:
  assumes roots: "\<forall>n\<in>set (snd (partitionNodes nodes)). completed e g nodes rf n"
  shows "attached nodes n \<Longrightarrow> completed e g nodes rf n"
proof (induction rule: attached.induct)
  case (root n)
  with roots show ?case by (simp add: partitionNodes_roots)
next
  case (child p c)
  then have "c \<in> set (childNodesOf nodes p)" by (simp add: childNodesOf_def)
  from completed_children [OF child.IH this] show ?case .
qed

lemma completed_produced:
  assumes "completed e g nodes rf n" and "readable e n"
  shows "producedIn e g n (events rf) (skeletonNodes rf)"
proof -
  from assms(1) obtain t rk where t: "taskNode t = n" "isDone t" "taskOk e g nodes rk t"
    "skelStep rk rf"
    by (auto simp: completed_def)
  from done_produced [OF t(3) t(2)] t(1) assms(2)
  have "producedIn e g n (events rk) (skeletonNodes rk)" by simp
  from skelStep_produced [OF t(4) this] show ?thesis .
qed

subsection \<open>The whole call\<close>

lemma skeletonizeCodeNodes_run:
  assumes "skeletonizeCodeNodes fuel e g nodes = Some (res, evs)"
  shows "\<exists>res' r. processRoots fuel e g (fst (partitionNodes nodes)) (snd (partitionNodes nodes))
                \<lparr>textDocumentCache = [], skeletonNodes = [], events = []\<rparr> = Some (res', r)
          \<and> evs = events r \<and> sane e g nodes r \<and> list_all skeletonEvent evs
          \<and> (\<forall>sks. res = Inr sks \<longrightarrow> res' = Inr () \<and> sks = skeletonNodes r)
          \<and> (\<forall>err t r0. res = Inl (err, t, r0) \<longrightarrow> res' = Inl (err, t) \<and> r0 = r)"
proof -
  let ?r0 = "\<lparr>textDocumentCache = [], skeletonNodes = [], events = []\<rparr>"
  from assms obtain res' r where
    pr: "processRoots fuel e g (fst (partitionNodes nodes)) (snd (partitionNodes nodes)) ?r0
           = Some (res', r)"
    by (auto simp: skeletonizeCodeNodes_def split: prod.splits option.splits)
  from processRoots_ok [OF pr refl _ sane_empty] attached_roots
  have ok: "skelStep ?r0 r" "sane e g nodes r" by auto
  from ok(1) have "list_all skeletonEvent (events r)" by (auto simp: skelStep_def)
  with assms pr ok show ?thesis
    by (auto simp: skeletonizeCodeNodes_def split: prod.splits sum.splits)
qed

lemma skeletonizeCodeNodes_events:
  "skeletonizeCodeNodes fuel e g nodes = Some (res, evs) \<Longrightarrow> list_all skeletonEvent evs"
  using skeletonizeCodeNodes_run by blast

lemma attached_nodes_contribute:
  assumes run: "skeletonizeCodeNodes fuel e g nodes = Some (Inr sks, evs)"
    and att: "attached nodes n" and rd: "readable e n"
  shows "producedIn e g n evs sks"
proof -
  let ?r0 = "\<lparr>textDocumentCache = [], skeletonNodes = [], events = []\<rparr>"
  from skeletonizeCodeNodes_run [OF run] obtain r where
    pr: "processRoots fuel e g (fst (partitionNodes nodes)) (snd (partitionNodes nodes)) ?r0
           = Some (Inr (), r)"
    and r: "evs = events r" "sks = skeletonNodes r"
    by auto
  from processRoots_ok [OF pr refl _ sane_empty] attached_roots
  have "\<forall>n\<in>set (snd (partitionNodes nodes)). completed e g nodes r n" by auto
  from completed_produced [OF attached_completed [OF this att] rd] r show ?thesis by simp
qed

lemma only_attached_nodes_generated:
  assumes run: "skeletonizeCodeNodes fuel e g nodes = Some (res, evs)"
    and gen: "Generate n blk \<in> set evs"
  shows "attached nodes n"
proof -
  from skeletonizeCodeNodes_run [OF run] obtain r where
    r: "evs = events r" "sane e g nodes r" by auto
  from gen obtain evs1 rest where "evs = evs1 @ Generate n blk # rest"
    by (auto simp: in_set_conv_decomp)
  with r have "history e g nodes r" "events r = evs1 @ Generate n blk # rest"
    by (simp_all add: sane_def)
  from historyD [OF this] show ?thesis by simp
qed

lemma children_before_parent:
  assumes run: "skeletonizeCodeNodes fuel e g nodes = Some (res, evs)"
    and gen: "evs = evs1 @ Generate p blk # rest"
  shows "\<exists>sks1 t.
           getTextDocumentFromUri e (uri (location p)) = Some t
         \<and> blk = codeBlockFor e p t (childNodesOf nodes p) sks1
         \<and> (\<forall>c\<in>set (childNodesOf nodes p). readable e c \<longrightarrow> producedIn e g c evs1 sks1)
         \<and> (\<forall>sks. res = Inr sks \<longrightarrow> (\<exists>rest'. sks = sks1 @ rest'))"
proof -
  from skeletonizeCodeNodes_run [OF run] obtain r where
    r: "evs = events r" "sane e g nodes r" "\<forall>sks. res = Inr sks \<longrightarrow> sks = skeletonNodes r"
    by auto
  with gen have "history e g nodes r" "events r = evs1 @ Generate p blk # rest"
    by (simp_all add: sane_def)
  from historyD [OF this] obtain sks1 rest' t where
    h: "skeletonNodes r = sks1 @ rest'"
      "getTextDocumentFromUri e (uri (location p)) = Some t"
      "blk = codeBlockFor e p t (childNodesOf nodes p) sks1"
      "\<forall>c\<in>set (childNodesOf nodes p). readable e c \<longrightarrow> producedIn e g c evs1 sks1"
    by blast
  from h(1) r(3) have "\<forall>sks. res = Inr sks \<longrightarrow> (\<exists>rest'. sks = sks1 @ rest')" by blast
  with h show ?thesis by blast
qed

text \<open>
  The tasks that a call leaves behind when it throws go on until none of them waits, and
  what holds of the calls made during the call holds of the calls they make.
\<close>

lemma tasks_left_behind:
  assumes run: "skeletonizeCodeNodes fuel e g nodes = Some (Inl (err, t, r), evs)"
    and on: "awaitTask e g True t r = (t', r')"
  shows "(\<exists>more. events r' = evs @ more \<and> list_all skeletonEvent more)
       \<and> sane e g nodes r' \<and> pendingCount t' = 0"
proof -
  let ?r0 = "\<lparr>textDocumentCache = [], skeletonNodes = [], events = []\<rparr>"
  from skeletonizeCodeNodes_run [OF run] have
    pr: "processRoots fuel e g (fst (partitionNodes nodes)) (snd (partitionNodes nodes)) ?r0
           = Some (Inl (err, t), r)"
    and evs: "evs = events r"
    by auto
  from processRoots_ok [OF pr refl _ sane_empty] attached_roots
  have ok: "sane e g nodes r" "taskOk e g nodes r t" by auto
  from awaitTask_ok [OF on ok(2,1)] have after: "skelStep r r'" "sane e g nodes r'" by simp_all
  have idle: "pendingCount t' = 0"
    using on
  proof (induction e g "True" t r rule: awaitTask.induct)
    case (1 e g t r)
    show ?case
    proof (cases "pendingCount t = 0")
      case True
      with "1.prems" show ?thesis by (simp add: awaitTask_stop)
    next
      case False
      obtain t1 r1 where st: "settle e g (nextSettled e t r mod pendingCount t) t r = (t1, r1)"
        by (cases "settle e g (nextSettled e t r mod pendingCount t) t r") auto
      from False have go: "\<not> (pendingCount t = 0 \<or> (\<not> True \<and> hasEnded t))" by simp
      from awaitTask_go [OF go st] "1.prems" have "awaitTask e g True t1 r1 = (t', r')" by simp
      from "1.hyps" [OF go st [symmetric] this] show ?thesis .
    qed
  qed
  from after(1) evs have "\<exists>more. events r' = evs @ more \<and> list_all skeletonEvent more"
    by (auto simp: skelStep_def)
  with after(2) idle show ?thesis by simp
qed

subsection \<open>The call returns\<close>

lemma attachedAt_member: "attachedAt nodes d n \<Longrightarrow> n \<in> set nodes"
  by (cases d) auto

lemma attachedAt_attached: "attachedAt nodes d n \<Longrightarrow> attached nodes n"
proof (induction d arbitrary: n)
  case 0
  then show ?case by (auto intro: attached.root)
next
  case (Suc d)
  then show ?case by (auto intro: attached.child)
qed

lemma depth_unique:
  assumes "distinct (map nodeId nodes)"
  shows "attachedAt nodes d n \<Longrightarrow> attachedAt nodes d' n \<Longrightarrow> d = d'"
proof (induction d arbitrary: d' n)
  case 0
  then show ?case by (cases d') auto
next
  case (Suc d)
  from Suc.prems(1) obtain p where p: "p \<in> set nodes" "attachedAt nodes d p"
    "parentNodeId n = Some (nodeId p)" and tr: "truthy (parentNodeId n)"
    by auto
  from Suc.prems(2) tr obtain d'' where d': "d' = Suc d''" by (cases d') auto
  with Suc.prems(2) obtain p' where p': "p' \<in> set nodes" "attachedAt nodes d'' p'"
    "parentNodeId n = Some (nodeId p')"
    by auto
  from assms have "inj_on nodeId (set nodes)" by (simp add: distinct_map)
  with p p' have "p' = p" by (auto dest: inj_onD)
  with Suc.IH [OF p(2)] p' d' show ?case by simp
qed

lemma ancestors_exist: "attachedAt nodes d n \<Longrightarrow> i \<le> d \<Longrightarrow> \<exists>m. attachedAt nodes i m"
proof (induction d arbitrary: n)
  case 0
  then show ?case by auto
next
  case (Suc d)
  show ?case
  proof (cases "i = Suc d")
    case True
    with Suc.prems(1) show ?thesis by blast
  next
    case False
    with Suc.prems(2) have "i \<le> d" by simp
    moreover from Suc.prems(1) obtain p where "attachedAt nodes d p" by auto
    ultimately show ?thesis using Suc.IH by blast
  qed
qed

lemma depth_bound:
  assumes dist: "distinct (map nodeId nodes)" and at: "attachedAt nodes d n"
  shows "d < length nodes"
proof -
  have "\<forall>i\<in>{..d}. \<exists>m. attachedAt nodes i m"
    using ancestors_exist [OF at] by simp
  then obtain f where f: "\<forall>i\<in>{..d}. attachedAt nodes i (f i)"
    by (auto dest: bchoice)
  have "inj_on f {..d}"
  proof (rule inj_onI)
    fix i j
    assume i: "i \<in> {..d}" and j: "j \<in> {..d}" and eq: "f i = f j"
    from f i have a: "attachedAt nodes i (f i)" by blast
    from f j have "attachedAt nodes j (f j)" by blast
    with eq have "attachedAt nodes j (f i)" by simp
    with a depth_unique [OF dist] show "i = j" by blast
  qed
  moreover from f have "f ` {..d} \<subseteq> set nodes"
    by (auto dest: attachedAt_member)
  ultimately have "card {..d} \<le> card (set nodes)"
    by (metis card_image card_mono List.finite_set)
  also have "\<dots> \<le> length nodes" by (rule card_length)
  finally show ?thesis by simp
qed

lemma child_depth:
  "attachedAt nodes d n \<Longrightarrow> c \<in> set (childNodesOf nodes n) \<Longrightarrow> attachedAt nodes (Suc d) c"
  by (auto simp: childNodesOf_def dest: attachedAt_member)

lemma enough_fuel_node:
  "distinct (map nodeId nodes) \<Longrightarrow> pm = fst (partitionNodes nodes) \<Longrightarrow>
     attachedAt nodes d n \<Longrightarrow> length nodes \<le> k + d \<Longrightarrow> processNode k e pm n r \<noteq> None"
  and enough_fuel_children:
  "distinct (map nodeId nodes) \<Longrightarrow> pm = fst (partitionNodes nodes) \<Longrightarrow>
     \<forall>n\<in>set ns. attachedAt nodes (Suc d) n \<Longrightarrow> length nodes \<le> Suc k + d \<Longrightarrow>
     processChildren k e pm ns r \<noteq> None"
proof (induction k e pm n r and k e pm ns r arbitrary: d and d
    rule: processNode_processChildren.induct)
  case (1 e pm n r)
  from depth_bound [OF "1.prems"(1,3)] "1.prems"(4) show ?case by simp
next
  case (2 k e pm n r)
  have ch: "childrenOf pm (nodeId n) = childNodesOf nodes n"
    by (simp add: "2.prems"(2) partitionNodes_children)
  have "\<forall>c\<in>set (childrenOf pm (nodeId n)). attachedAt nodes (Suc d) c"
    using child_depth [OF "2.prems"(3)] ch by simp
  from "2.IH" [OF "2.prems"(1,2) this] "2.prems"(4)
  have "processChildren k e pm (childrenOf pm (nodeId n)) r \<noteq> None" by simp
  then show ?case
    by (auto split: option.splits prod.splits)
next
  case (3 k e pm r)
  show ?case by simp
next
  case (4 k e pm c cs r)
  from "4.prems"(4) have le: "length nodes \<le> k + Suc d" by simp
  from "4.IH"(1) [OF "4.prems"(1,2) _ le] "4.prems"(3)
  obtain t r1 where first: "processNode k e pm c r = Some (t, r1)" by auto
  from "4.IH"(2) [OF first refl "4.prems"(1,2) _ "4.prems"(4)] "4.prems"(3)
  have "processChildren k e pm cs r1 \<noteq> None" by simp
  with first show ?case by (auto split: option.splits)
qed

lemma processRoots_returns:
  assumes dist: "distinct (map nodeId nodes)" and pm: "pm = fst (partitionNodes nodes)"
  shows "\<forall>n\<in>set roots. attachedAt nodes 0 n \<Longrightarrow> sane e g nodes r \<Longrightarrow>
           processRoots (length nodes) e g pm roots r \<noteq> None"
proof (induction roots arbitrary: r)
  case Nil
  show ?case by simp
next
  case (Cons n roots)
  from Cons.prems(1) have at: "attachedAt nodes 0 n" by simp
  from enough_fuel_node [OF dist pm at, of "length nodes" e r]
  obtain t r1 where pn: "processNode (length nodes) e pm n r = Some (t, r1)" by auto
  obtain t' r2 where aw: "awaitTask e g False t r1 = (t', r2)"
    by (cases "awaitTask e g False t r1") auto
  from processNode_ok [OF pn pm attachedAt_attached [OF at] Cons.prems(2)]
  have one: "sane e g nodes r1" "taskOk e g nodes r1 t" by simp_all
  from awaitTask_ok [OF aw one(2,1)]
  have two: "sane e g nodes r2" "hasEnded t'" by simp_all
  show ?case
  proof (cases "taskPhase t'")
    case Done
    from Cons.IH [OF _ two(1)] Cons.prems(1)
    have "processRoots (length nodes) e g pm roots r2 \<noteq> None" by simp
    with pn aw Done show ?thesis by simp
  next
    case (Failed err)
    with pn aw show ?thesis by simp
  qed (use two(2) in \<open>simp_all add: hasEnded_def\<close>)
qed

lemma skeletonizeCodeNodes_returns:
  assumes "distinct (map nodeId nodes)"
  shows "skeletonizeCodeNodes (length nodes) e g nodes \<noteq> None"
proof -
  have "\<forall>n\<in>set (snd (partitionNodes nodes)). attachedAt nodes 0 n"
    by (simp add: partitionNodes_roots)
  from processRoots_returns [OF assms refl this sane_empty, of e g]
  show ?thesis
    by (auto simp: skeletonizeCodeNodes_def split: prod.splits option.splits sum.splits)
qed


subsection \<open>The tasks at work\<close>

text \<open>
  A root with two children in one document. Both children are started before either has
  its document, so the document is asked for twice; the parent finds it in the cache.
  The skeletons are collected in the order in which the generator answers, which the
  environment decides.
\<close>

lemma siblings_each_ask_for_the_document:
  "skeletonizeCodeNodes 3 sampleEnv emptyGraph [parentNode, childNode, secondChild]
     = Some (Inr [skeletonOf childNode ''import b'', skeletonOf secondChild ''import b'',
                  skeletonOf parentNode ''import bsk:import bsk:import b''],
             [ReadDocument uriA, ReadDocument uriA, Generate childNode ''import b'',
              Generate secondChild ''import b'',
              Generate parentNode ''import bsk:import bsk:import b''])"
  by code_simp

lemma skeletons_come_in_the_order_of_the_answers:
  "skeletonizeCodeNodes 3 lastFirst emptyGraph [parentNode, childNode, secondChild]
     = Some (Inr [skeletonOf secondChild ''import b'', skeletonOf childNode ''import b'',
                  skeletonOf parentNode ''import bsk:import bsk:import b''],
             [ReadDocument uriA, ReadDocument uriA, Generate secondChild ''import b'',
              Generate childNode ''import b'',
              Generate parentNode ''import bsk:import bsk:import b''])"
  by code_simp

text \<open>
  When the generator fails for the first child, the call throws while the second child
  still waits for its document. The task of the second child is left behind; it goes on
  to call the generator and to push its skeleton.
\<close>

lemma a_failed_sibling_leaves_the_other_running:
  "map_option (\<lambda>x. (map_sum fst id (fst x), snd x))
     (skeletonizeCodeNodes 3 failingGenerator emptyGraph [parentNode, childNode, secondChild])
     = Some (Inl GenerationFailure,
             [ReadDocument uriA, ReadDocument uriA, Generate childNode ''import b''])
   \<and> (case skeletonizeCodeNodes 3 failingGenerator emptyGraph
             [parentNode, childNode, secondChild] of
        Some (Inl (err, t, r), evs) \<Rightarrow>
          pendingCount t = 1
          \<and> events (snd (awaitTask failingGenerator emptyGraph True t r))
              = evs @ [Generate secondChild ''import b'']
          \<and> skeletonNodes (snd (awaitTask failingGenerator emptyGraph True t r))
              = [skeletonOf secondChild ''import b'']
      | _ \<Rightarrow> False)"
  by code_simp

section \<open>What each step does to the state\<close>

lemma lookup_frontier: "lookupEvent ev \<Longrightarrow> frontierEvent ev"
  by (cases ev) auto

lemma lookupStep_refl: "lookupStep s s"
  by (simp add: lookupStep_def)

lemma lookupStep_trans: "lookupStep s s1 \<Longrightarrow> lookupStep s1 s2 \<Longrightarrow> lookupStep s s2"
  by (auto simp: lookupStep_def)

lemma lookupStep_read: "lookupStep s (emit (ReadDocument u) s)"
  by (simp add: lookupStep_def emit_def)

lemma shouldIncludeFile_lookupStep:
  "shouldIncludeFile e p s = (b, s') \<Longrightarrow> lookupStep s s'"
  by (auto simp: shouldIncludeFile_def lookupStep_def emit_def Let_def split: option.splits)

lemma nodeLoop_lookupStep:
  "nodeLoop e d ns acc s = (r, s') \<Longrightarrow> lookupStep s s'"
proof (induction ns arbitrary: acc s)
  case Nil
  then show ?case by (auto simp: lookupStep_refl)
next
  case (Cons n ns)
  show ?case
  proof (cases "uri (location n) \<noteq> d")
    case foreign: True
    show ?thesis
    proof (cases "getFileFromSymbolTable e (uri (location n)) (workspace s) (codeGraph s)")
      case (Inl err)
      with Cons.prems foreign show ?thesis by (auto simp: lookupStep_read)
    next
      case (Inr x)
      obtain f0 rel h where x: "x = (f0, rel, h)" by (cases x) auto
      obtain b s1 where inc:
        "shouldIncludeFile e rel (emit (ReadDocument (uri (location n))) s) = (b, s1)"
        by (cases "shouldIncludeFile e rel (emit (ReadDocument (uri (location n))) s)") auto
      have s1: "lookupStep s s1"
        using lookupStep_trans [OF lookupStep_read shouldIncludeFile_lookupStep [OF inc]] .
      from Cons.prems foreign Inr x inc
      have "\<exists>acc'. nodeLoop e d ns acc' s1 = (r, s')"
        by (cases acc) (auto split: if_splits)
      then obtain acc' where "nodeLoop e d ns acc' s1 = (r, s')" ..
      from lookupStep_trans [OF s1 Cons.IH [OF this]] show ?thesis .
    qed
  next
    case own: False
    show ?thesis
    proof (cases "fileURLToPath e (nodeId n)")
      case None
      with Cons.prems own show ?thesis by (auto simp: lookupStep_refl)
    next
      case (Some p)
      with Cons.prems own
      have "\<exists>acc'. nodeLoop e d ns acc' s = (r, s')" by (cases acc) auto
      then obtain acc' where "nodeLoop e d ns acc' s = (r, s')" ..
      from Cons.IH [OF this] show ?thesis .
    qed
  qed
qed

lemma frontierStep_refl: "frontierStep s s"
  by (simp add: frontierStep_def)

lemma frontierStep_trans: "frontierStep s s1 \<Longrightarrow> frontierStep s1 s2 \<Longrightarrow> frontierStep s s2"
  by (auto simp: frontierStep_def)

lemma lookupStep_frontierStep: "lookupStep s s' \<Longrightarrow> frontierStep s s'"
  by (auto simp: lookupStep_def frontierStep_def list_all_iff lookup_frontier)

lemma visitDocument_frontierStep:
  assumes "visitDocument e d v s = (r, s')"
  shows "frontierStep s s'"
proof -
  define sa where "sa = emit (ReadDocument d) (s\<lparr>alreadyVisited := alreadyVisited s @ [d]\<rparr>)"
  have a: "frontierStep s sa"
    by (auto simp: sa_def frontierStep_def emit_def)
  show ?thesis
  proof (cases "getFileFromSymbolTable e d (workspace s) (codeGraph s)")
    case (Inl err)
    with assms have "s' = sa" by (simp add: visitDocument_def sa_def Let_def emit_def)
    with a show ?thesis by simp
  next
    case (Inr x)
    obtain f0 rel h where x: "x = (f0, rel, h)" by (cases x) auto
    show ?thesis
    proof (cases "alreadyIndexed f0 h (map_of (fileHashMap s) rel)")
      case True
      with assms Inr x have "s' = sa" by (simp add: visitDocument_def sa_def Let_def emit_def)
      with a show ?thesis by simp
    next
      case stale: False
      define sb where "sb = emit (ReadDocument d) (emit (CallbackDetached (OnFileProcessing rel)) sa)"
      have b: "frontierStep s sb"
        using a by (auto simp: sb_def frontierStep_def emit_def)
      show ?thesis
      proof (cases "getTextDocumentFromUri e d")
        case None
        with assms Inr x stale have "s' = sb"
          by (simp add: visitDocument_def sa_def sb_def Let_def emit_def)
        with b show ?thesis by simp
      next
        case (Some t)
        define sc where "sc = emit (CreateNodes d) sb"
        have c: "frontierStep s sc"
          using b by (auto simp: sc_def frontierStep_def emit_def)
        show ?thesis
        proof (cases "createNodesFromDocument e d t")
          case (Inl err)
          with assms Inr x stale Some have "s' = sc"
            by (simp add: visitDocument_def sa_def sb_def sc_def Let_def emit_def)
          with c show ?thesis by simp
        next
          case parsed: (Inr pr)
          define q where "q = (case pr of None \<Rightarrow> emptyParse | Some y \<Rightarrow> y)"
          show ?thesis
          proof (cases "pr_nodes q = []")
            case True
            with assms Inr x stale Some parsed have "s' = sc"
              by (simp add: visitDocument_def sa_def sb_def sc_def q_def Let_def emit_def)
            with c show ?thesis by simp
          next
            case False
            obtain r3 s3 where nl: "nodeLoop e d (pr_nodes q) (v, []) sc = (r3, s3)"
              by (cases "nodeLoop e d (pr_nodes q) (v, []) sc") auto
            have s3: "frontierStep s s3"
              using frontierStep_trans [OF c lookupStep_frontierStep [OF nodeLoop_lookupStep [OF nl]]] .
            from assms Inr x stale Some parsed False nl
            have "s' = s3 \<or> (\<exists>g hm. s' = s3\<lparr>codeGraph := g, fileHashMap := hm\<rparr>)"
              by (auto simp: visitDocument_def sa_def sb_def sc_def q_def Let_def emit_def
                  split: step.splits)
            with s3 show ?thesis by (auto simp: frontierStep_def)
          qed
        qed
      qed
    qed
  qed
qed

lemma frontierLoop_empty: "pending v = [] \<Longrightarrow> frontierLoop e v s = (Next v, s)"
  by (simp add: frontierLoop.simps [of e v s])

lemma frontierLoop_visited:
  "pending v = d # rest \<Longrightarrow> d \<in> set (alreadyVisited s) \<Longrightarrow>
     frontierLoop e v s = frontierLoop e (v\<lparr>pending := rest\<rparr>) s"
  by (simp add: frontierLoop.simps [of e v s])

lemma frontierLoop_fresh:
  "pending v = d # rest \<Longrightarrow> d \<notin> set (alreadyVisited s) \<Longrightarrow>
     frontierLoop e v s =
       (case visitDocument e d (v\<lparr>pending := rest\<rparr>) s of
          (Next v', s') \<Rightarrow> frontierLoop e v' s'
        | (Return, s') \<Rightarrow> (Return, s')
        | (Throw err, s') \<Rightarrow> (Throw err, s')
        | (Diverge, s') \<Rightarrow> (Diverge, s'))"
  by (simp add: frontierLoop.simps [of e v s])

lemma frontierLoop_run [consumes 1, case_names empty visited stop go]:
  assumes run: "frontierLoop e v s = (r, s')"
    and empty: "\<And>v s. pending v = [] \<Longrightarrow> P v s (Next v) s"
    and visited: "\<And>v s d rest r s'. pending v = d # rest \<Longrightarrow> d \<in> set (alreadyVisited s) \<Longrightarrow>
        frontierLoop e (v\<lparr>pending := rest\<rparr>) s = (r, s') \<Longrightarrow>
        P (v\<lparr>pending := rest\<rparr>) s r s' \<Longrightarrow> P v s r s'"
    and stop: "\<And>v s d rest r1 s1. pending v = d # rest \<Longrightarrow> d \<notin> set (alreadyVisited s) \<Longrightarrow>
        visitDocument e d (v\<lparr>pending := rest\<rparr>) s = (r1, s1) \<Longrightarrow>
        (\<And>v1. r1 \<noteq> Next v1) \<Longrightarrow> P v s r1 s1"
    and go: "\<And>v s d rest v1 s1 r s'. pending v = d # rest \<Longrightarrow> d \<notin> set (alreadyVisited s) \<Longrightarrow>
        visitDocument e d (v\<lparr>pending := rest\<rparr>) s = (Next v1, s1) \<Longrightarrow>
        frontierLoop e v1 s1 = (r, s') \<Longrightarrow> P v1 s1 r s' \<Longrightarrow> P v s r s'"
  shows "P v s r s'"
  using run
proof (induction e' \<equiv> e v s arbitrary: r s' rule: frontierLoop.induct)
  case (1 v s)
  show ?case
  proof (cases "pending v")
    case Nil
    with "1.prems" show ?thesis using empty [OF Nil, of s] by (simp add: frontierLoop_empty)
  next
    case (Cons d rest)
    show ?thesis
    proof (cases "d \<in> set (alreadyVisited s)")
      case True
      with "1.prems" Cons have run': "frontierLoop e (v\<lparr>pending := rest\<rparr>) s = (r, s')"
        by (simp add: frontierLoop_visited)
      from visited [OF Cons True run' "1.hyps"(1) [OF Cons True run']] show ?thesis .
    next
      case False
      obtain r1 s1 where vd: "visitDocument e d (v\<lparr>pending := rest\<rparr>) s = (r1, s1)"
        by (cases "visitDocument e d (v\<lparr>pending := rest\<rparr>) s") auto
      show ?thesis
      proof (cases "\<exists>v1. r1 = Next v1")
        case True
        then obtain v1 where nx: "r1 = Next v1" ..
        with "1.prems" Cons False vd have run': "frontierLoop e v1 s1 = (r, s')"
          by (simp add: frontierLoop_fresh)
        from go [OF Cons False vd [unfolded nx] run'
            "1.hyps"(2) [OF Cons False vd [symmetric] nx run']]
        show ?thesis .
      next
        case nonext: False
        with "1.prems" Cons False vd have "r = r1" "s' = s1"
          by (auto simp: frontierLoop_fresh split: step.splits)
        with stop [OF Cons False vd] nonext show ?thesis by auto
      qed
    qed
  qed
qed

lemma frontierLoop_frontierStep:
  "frontierLoop e v s = (r, s') \<Longrightarrow> frontierStep s s'"
proof (induction rule: frontierLoop_run)
  case (empty v s)
  show ?case by (rule frontierStep_refl)
next
  case (visited v s d rest r s')
  then show ?case by simp
next
  case (stop v s d rest r1 s1)
  then show ?case by (auto dest: visitDocument_frontierStep)
next
  case (go v s d rest v1 s1 r s')
  then show ?case using visitDocument_frontierStep frontierStep_trans by blast
qed

lemma passStep_refl: "passStep 0 s s"
  by (simp add: passStep_def)

lemma passStep_trans: "passStep m s s1 \<Longrightarrow> passStep n s1 s2 \<Longrightarrow> passStep (m + n) s s2"
  by (fastforce simp: passStep_def)

lemma passStep_mono: "passStep m s s' \<Longrightarrow> m \<le> n \<Longrightarrow> passStep n s s'"
  by (fastforce simp: passStep_def)

lemma frontierEvent_plain: "frontierEvent ev \<Longrightarrow> \<not> isAwaited ev \<and> \<not> isSave ev"
  by (cases ev) auto

lemma skeletonEvent_plain: "skeletonEvent ev \<Longrightarrow> \<not> isAwaited ev \<and> \<not> isSave ev \<and> \<not> isParse ev"
  by (cases ev) auto

lemma frontierStep_passStep: "frontierStep s s' \<Longrightarrow> passStep 0 s s'"
  by (auto simp: frontierStep_def passStep_def list_all_iff filter_empty_conv
      dest: frontierEvent_plain)

lemma removeDocument_passStep: "removeDocument e p s = (r, s') \<Longrightarrow> passStep 0 s s'"
  by (auto simp: removeDocument_def forgetFile_def passStep_def emit_def Let_def
      split: sum.splits option.splits if_splits)

lemma persistNodes_passStep:
  assumes "persistNodes e fb ns s = (r, s')"
  shows "passStep 1 s s'"
proof (cases "ns = []")
  case True
  with assms show ?thesis by (simp add: persistNodes_def passStep_def)
next
  case False
  show ?thesis
  proof (cases "skeletonizeCodeNodes (length ns) e (codeGraph s) ns")
    case None
    with assms False show ?thesis by (simp add: persistNodes_def passStep_def)
  next
    case (Some a)
    obtain x evs where a: "a = (x, evs)" by (cases a) auto
    from skeletonizeCodeNodes_events [OF Some [unfolded a]]
    have plain: "list_all (\<lambda>ev. \<not> isAwaited ev) evs" "filter isSave evs = []"
      by (auto simp: list_all_iff filter_empty_conv dest: skeletonEvent_plain)
    from assms False Some a
    have "workspace s' = workspace s \<and> inclusionFilter s' = inclusionFilter s
        \<and> syncing s' = syncing s
        \<and> (trace s' = trace s @ evs
           \<or> (\<exists>t. trace s' = trace s @ evs @ [TasksDetached t])
           \<or> (\<exists>d i x t b. trace s' = trace s @ evs @ [Save d i x t b]))"
      by (auto simp: persistNodes_def Let_def emit_def detached_def
          split: sum.splits option.splits if_splits)
    with plain show ?thesis by (auto simp: passStep_def)
  qed
qed

lemma processDocument_passStep:
  assumes "processDocument e fb u s = (r, s')"
  shows "passStep 1 s s'"
proof (cases "u \<in> set (alreadyVisited s)")
  case True
  with assms show ?thesis by (simp add: processDocument_def passStep_def)
next
  case fresh: False
  show ?thesis
  proof (cases "fileURLToPath e u")
    case None
    with assms fresh show ?thesis by (simp add: processDocument_def passStep_def)
  next
    case (Some p)
    have ex: "passStep 0 s (emit (ExistsSync p) s)"
      by (simp add: passStep_def emit_def)
    show ?thesis
    proof (cases "existsSync e p")
      case False
      with assms fresh Some have "removeDocument e p (emit (ExistsSync p) s) = (r, s')"
        by (simp add: processDocument_def)
      from passStep_trans [OF ex removeDocument_passStep [OF this]]
      show ?thesis by (auto intro: passStep_mono)
    next
      case True
      obtain r1 s1 where fl:
        "frontierLoop e \<lparr>pending = [u], relatedNodes = [u], nodesToProcess = []\<rparr>
           (emit (ExistsSync p) s) = (r1, s1)"
        by (cases "frontierLoop e \<lparr>pending = [u], relatedNodes = [u], nodesToProcess = []\<rparr>
           (emit (ExistsSync p) s)") auto
      from passStep_trans [OF ex frontierStep_passStep [OF frontierLoop_frontierStep [OF fl]]]
      have s1: "passStep 0 s s1" by simp
      show ?thesis
      proof (cases "\<exists>v. r1 = Next v")
        case True
        then obtain v where "r1 = Next v" ..
        with assms fresh Some \<open>existsSync e p\<close> fl
        have "persistNodes e fb (map snd (nodesToProcess v)) s1 = (r, s')"
          by (simp add: processDocument_def)
        from passStep_trans [OF s1 persistNodes_passStep [OF this]] show ?thesis by simp
      next
        case False
        with assms fresh Some \<open>existsSync e p\<close> fl have "s' = s1"
          by (auto simp: processDocument_def split: step.splits)
        with s1 show ?thesis by (auto intro: passStep_mono)
      qed
    qed
  qed
qed

lemma documentLoop_passStep:
  "documentLoop e fb us s = (r, s') \<Longrightarrow> passStep (length us) s s'"
proof (induction us arbitrary: s)
  case Nil
  then show ?case by (simp add: passStep_refl)
next
  case (Cons u us)
  obtain r1 s1 where one: "processDocument e fb u s = (r1, s1)"
    by (cases "processDocument e fb u s") auto
  note p1 = processDocument_passStep [OF one]
  show ?case
  proof (cases "r1 = Return \<or> r1 = Diverge")
    case True
    with Cons.prems one have "s' = s1" by auto
    with p1 show ?thesis by (auto intro: passStep_mono)
  next
    case False
    with Cons.prems one have "documentLoop e fb us s1 = (r, s')"
      by (cases r1) auto
    from passStep_trans [OF p1 Cons.IH [OF this]] show ?thesis by simp
  qed
qed

lemma truncate_fields [simp]:
  "trace (Indexer.truncate s) = trace s"
  "codeGraph (Indexer.truncate s) = codeGraph s"
  "workspace (Indexer.truncate s) = workspace s"
  "syncing (Indexer.truncate s) = syncing s"
  "inclusionFilter (Indexer.truncate s) = inclusionFilter s"
  "matchedFilesCache (Indexer.truncate s) = matchedFilesCache s"
  by (simp_all add: Indexer.truncate_def)

lemma startPass_fields [simp]:
  "trace (startPass ix) = trace ix"
  "codeGraph (startPass ix) = codeGraph ix"
  "workspace (startPass ix) = workspace ix"
  "syncing (startPass ix) = True"
  "inclusionFilter (startPass ix) = inclusionFilter ix"
  "matchedFilesCache (startPass ix) = matchedFilesCache ix"
  "fileHashMap (startPass ix) = []"
  "alreadyVisited (startPass ix) = []"
  by (simp_all add: startPass_def Indexer.extend_def Pass.fields_def)

lemma processDocuments_trace:
  "\<exists>evs. trace (snd (processDocuments e uris fb ix)) = trace ix @ evs
      \<and> list_all (\<lambda>ev. \<not> isAwaited ev) evs
      \<and> length (filter isSave evs) \<le> (case uris of None \<Rightarrow> 0 | Some us \<Rightarrow> length us)"
proof (cases "\<exists>us. uris = Some us \<and> workspace ix \<noteq> [] \<and> us \<noteq> []")
  case False
  then have "processDocuments e uris fb ix = (Resolved, ix\<lparr>syncing := False\<rparr>)"
    by (auto simp: processDocuments_def split: option.splits)
  then show ?thesis by simp
next
  case True
  then obtain us where us: "uris = Some us" "workspace ix \<noteq> []" "us \<noteq> []" by auto
  obtain r s' where dl: "documentLoop e fb us (startPass ix) = (r, s')"
    by (cases "documentLoop e fb us (startPass ix)") auto
  from documentLoop_passStep [OF dl] obtain evs where
    "trace s' = trace ix @ evs" "list_all (\<lambda>ev. \<not> isAwaited ev) evs"
    "length (filter isSave evs) \<le> length us"
    by (auto simp: passStep_def)
  moreover from us dl have "trace (snd (processDocuments e uris fb ix)) = trace s'"
    by (auto simp: processDocuments_def split: step.splits)
  ultimately show ?thesis using us by auto
qed

lemma getFileFromSymbolTable_eq:
  "getFileFromSymbolTable e u ws g =
     (case digestOf e u of
        None \<Rightarrow> Inl TypeError
      | Some h \<Rightarrow>
          (case relOf e ws u of
             None \<Rightarrow> Inl TypeError
           | Some rel \<Rightarrow> Inr (map_of (symbolTable g) rel, rel, h)))"
  by (simp add: getFileFromSymbolTable_def digestOf_def relOf_def
      CodeGraph_getFileFromSymbolTable_def split: option.splits)

lemma getFileFromSymbolTable_Inr:
  "getFileFromSymbolTable e u ws g = Inr (f, rel, h) \<longleftrightarrow>
     digestOf e u = Some h \<and> relOf e ws u = Some rel \<and> f = map_of (symbolTable g) rel"
  by (auto simp: getFileFromSymbolTable_eq split: option.splits)

lemma visitDocument_cases [consumes 1, case_names unparsed stopped updated]:
  assumes run: "visitDocument e d v s = (r, s')"
    and unparsed: "s' = afterRead d s \<Longrightarrow>
        (r = Next v \<and> (\<exists>f rel h. getFileFromSymbolTable e d (workspace s) (codeGraph s)
                                    = Inr (f, rel, h)
                                  \<and> alreadyIndexed f h (map_of (fileHashMap s) rel)))
        \<or> (\<exists>err. r = Throw err
               \<and> getFileFromSymbolTable e d (workspace s) (codeGraph s) = Inl err)
        \<Longrightarrow> thesis"
    and stopped: "\<And>f rel h. getFileFromSymbolTable e d (workspace s) (codeGraph s) = Inr (f, rel, h) \<Longrightarrow>
        \<not> alreadyIndexed f h (map_of (fileHashMap s) rel) \<Longrightarrow>
        lookupStep (afterParse rel d s) s' \<Longrightarrow> (\<And>v'. r \<noteq> Next v') \<Longrightarrow> thesis"
    and updated: "\<And>f rel h t pr acc s3.
        getFileFromSymbolTable e d (workspace s) (codeGraph s) = Inr (f, rel, h) \<Longrightarrow>
        \<not> alreadyIndexed f h (map_of (fileHashMap s) rel) \<Longrightarrow>
        getTextDocumentFromUri e d = Some t \<Longrightarrow>
        createNodesFromDocument e d t = Inr (Some pr) \<Longrightarrow> pr_nodes pr \<noteq> [] \<Longrightarrow>
        nodeLoop e d (pr_nodes pr) (v, []) (afterParse rel d s) = (Next acc, s3) \<Longrightarrow>
        r = Next (fst acc) \<Longrightarrow>
        s' = s3\<lparr>codeGraph := updateFileWithEdges (codeGraph s3) rel
                                \<lparr>nodeIds = snd acc, sha = h\<rparr>
                                (pr_importEdges pr) (pr_exportEdges pr),
                 fileHashMap := AList.update rel h (fileHashMap s3)\<rparr> \<Longrightarrow> thesis"
  shows thesis
proof -
  have sa: "emit (ReadDocument d) (s\<lparr>alreadyVisited := alreadyVisited s @ [d]\<rparr>) = afterRead d s"
    by (simp add: emit_def afterRead_def)
  have sc: "\<And>rel. emit (CreateNodes d) (emit (ReadDocument d)
              (emit (CallbackDetached (OnFileProcessing rel)) (afterRead d s))) = afterParse rel d s"
    by (simp add: emit_def afterRead_def afterParse_def)
  have ws: "workspace (afterRead d s) = workspace s" "codeGraph (afterRead d s) = codeGraph s"
    "fileHashMap (afterRead d s) = fileHashMap s"
    by (simp_all add: afterRead_def)
  show thesis
  proof (cases "getFileFromSymbolTable e d (workspace s) (codeGraph s)")
    case (Inl err)
    with run have "s' = afterRead d s" "r = Throw err"
      by (simp_all add: visitDocument_def Let_def sa ws)
    with Inl unparsed show thesis by blast
  next
    case (Inr x)
    obtain f rel h where x: "x = (f, rel, h)" by (cases x) auto
    note gf = Inr [unfolded x]
    show thesis
    proof (cases "alreadyIndexed f h (map_of (fileHashMap s) rel)")
      case True
      with run gf have "s' = afterRead d s" "r = Next v"
        by (simp_all add: visitDocument_def Let_def sa ws)
      with gf True unparsed show thesis by blast
    next
      case stale: False
      from gf obtain t where t: "getTextDocumentFromUri e d = Some t"
        by (auto simp: getFileFromSymbolTable_def split: option.splits)
      show thesis
      proof (cases "createNodesFromDocument e d t")
        case (Inl err)
        with run gf stale t have "s' = afterParse rel d s" "r = Throw err"
          by (simp_all add: visitDocument_def Let_def sa ws sc)
        with stopped [OF gf stale] show thesis by (simp add: lookupStep_refl)
      next
        case parsed: (Inr pr)
        define q where "q = (case pr of None \<Rightarrow> emptyParse | Some y \<Rightarrow> y)"
        show thesis
        proof (cases "pr_nodes q = []")
          case True
          with run gf stale t parsed have "s' = afterParse rel d s" "r = Return"
            by (simp_all add: visitDocument_def Let_def sa ws sc q_def)
          with stopped [OF gf stale] show thesis by (simp add: lookupStep_refl)
        next
          case nonempty: False
          then obtain p where pr: "pr = Some p" "q = p"
            by (cases pr) (auto simp: q_def emptyParse_def)
          obtain r3 s3 where nl: "nodeLoop e d (pr_nodes p) (v, []) (afterParse rel d s) = (r3, s3)"
            by (cases "nodeLoop e d (pr_nodes p) (v, []) (afterParse rel d s)") auto
          note ls = nodeLoop_lookupStep [OF nl]
          show thesis
          proof (cases "\<exists>acc. r3 = Next acc")
            case True
            then obtain acc where acc: "r3 = Next acc" ..
            with run gf stale t parsed pr nonempty nl
            have "r = Next (fst acc)"
              "s' = s3\<lparr>codeGraph := updateFileWithEdges (codeGraph s3) rel
                                \<lparr>nodeIds = snd acc, sha = h\<rparr>
                                (pr_importEdges p) (pr_exportEdges p),
                 fileHashMap := AList.update rel h (fileHashMap s3)\<rparr>"
              by (simp_all add: visitDocument_def Let_def sa ws sc)
            with updated [OF gf stale t parsed [unfolded pr(1)] nonempty [unfolded pr(2)]
                nl [unfolded acc]]
            show thesis by blast
          next
            case False
            with run gf stale t parsed pr nonempty nl
            have "s' = s3" "\<And>v'. r \<noteq> Next v'"
              by (auto simp: visitDocument_def Let_def sa ws sc split: step.splits)
            with stopped [OF gf stale] ls show thesis by blast
          qed
        qed
      qed
    qed
  qed
qed


lemma count_list_append_none:
  "x \<notin> set ys \<Longrightarrow> count_list (xs @ ys) x = count_list xs x"
  by (induction xs) (auto simp: count_list_0_iff)

lemma lookupStep_keeps: "lookupStep s s' \<Longrightarrow> keeps e ws u n s \<Longrightarrow> keeps e ws u n s'"
proof -
  assume a: "lookupStep s s'" "keeps e ws u n s"
  then obtain evs where evs: "trace s' = trace s @ evs" "list_all lookupEvent evs"
    by (auto simp: lookupStep_def)
  then have "CreateNodes u \<notin> set evs" by (auto simp: list_all_iff)
  with a evs show ?thesis by (auto simp: keeps_def lookupStep_def count_list_append_none)
qed

lemma afterRead_keeps: "keeps e ws u n s \<Longrightarrow> keeps e ws u n (afterRead d s)"
  by (simp add: keeps_def afterRead_def)

lemma afterParse_keeps: "keeps e ws u n s \<Longrightarrow> d \<noteq> u \<Longrightarrow> keeps e ws u n (afterParse rel d s)"
  by (simp add: keeps_def afterParse_def)

lemma current_is_indexed:
  assumes "isCurrent e ws g u" and "getFileFromSymbolTable e u ws g = Inr (f, rel, h)"
  shows "alreadyIndexed f h hashed"
  using assms
  by (auto simp: isCurrent_def getFileFromSymbolTable_Inr alreadyIndexed_def split: option.splits)

lemma update_keeps_current:
  assumes cur: "isCurrent e ws g u"
    and one: "oneDigestPerFile e ws u"
    and d: "getFileFromSymbolTable e d ws g0 = Inr (f, rel, h)"
  shows "isCurrent e ws (updateFileWithEdges g rel \<lparr>nodeIds = ids, sha = h\<rparr> imps exps) u"
proof -
  from cur obtain relU hU fU where u: "relOf e ws u = Some relU" "digestOf e u = Some hU"
    "map_of (symbolTable g) relU = Some fU" "sha fU = hU"
    by (auto simp: isCurrent_def split: option.splits)
  from d have dd: "digestOf e d = Some h" "relOf e ws d = Some rel"
    by (auto simp: getFileFromSymbolTable_Inr)
  show ?thesis
  proof (cases "rel = relU")
    case False
    with u show ?thesis
      by (simp add: isCurrent_def updateFileWithEdges_def update_conv')
  next
    case True
    from dd(1) obtain t where t: "map_of (documents e) d = Some t" "h = sha256hex e t"
      by (auto simp: digestOf_def getTextDocumentFromUri_def)
    then have "(d, t) \<in> set (documents e)" by (auto dest: map_of_SomeD)
    with one True dd u have "Some (sha256hex e t) = Some hU"
      by (auto simp: oneDigestPerFile_def list_all_iff)
    with t u True show ?thesis
      by (simp add: isCurrent_def updateFileWithEdges_def update_conv')
  qed
qed

lemma visitDocument_keeps:
  assumes run: "visitDocument e d v s = (r, s')"
    and one: "oneDigestPerFile e ws u"
    and k: "keeps e ws u n s"
  shows "keeps e ws u n s'"
  using run
proof (cases rule: visitDocument_cases)
  case unparsed
  with k show ?thesis by (simp add: afterRead_keeps)
next
  case (stopped f rel h)
  from k stopped(1,2) have "d \<noteq> u"
    by (auto simp: keeps_def dest: current_is_indexed)
  from lookupStep_keeps [OF stopped(3) afterParse_keeps [OF k this]] show ?thesis .
next
  case (updated f rel h t pr acc s3)
  from k updated(1,2) have "d \<noteq> u"
    by (auto simp: keeps_def dest: current_is_indexed)
  from lookupStep_keeps [OF nodeLoop_lookupStep [OF updated(6)] afterParse_keeps [OF k this]]
  have k3: "keeps e ws u n s3" .
  from k have "workspace s = ws" by (simp add: keeps_def)
  with updated(1) have "getFileFromSymbolTable e d ws (codeGraph s) = Inr (f, rel, h)" by simp
  from update_keeps_current [OF _ one this] k3
  have "isCurrent e ws (updateFileWithEdges (codeGraph s3) rel \<lparr>nodeIds = snd acc, sha = h\<rparr>
          (pr_importEdges pr) (pr_exportEdges pr)) u"
    by (simp add: keeps_def)
  with k3 updated(8) show ?thesis by (simp add: keeps_def)
qed

lemma frontierLoop_keeps:
  assumes "frontierLoop e v s = (r, s')" and "oneDigestPerFile e ws u" and "keeps e ws u n s"
  shows "keeps e ws u n s'"
  using assms(1,3)
proof (induction rule: frontierLoop_run)
  case (empty v s)
  then show ?case by simp
next
  case (visited v s d rest r s')
  then show ?case by simp
next
  case (stop v s d rest r1 s1)
  from visitDocument_keeps [OF stop(3) assms(2) stop(5)] show ?case .
next
  case (go v s d rest v1 s1 r s')
  from go(5) [OF visitDocument_keeps [OF go(3) assms(2) go(6)]] show ?case .
qed

lemma persistNodes_frame:
  assumes "persistNodes e fb ns s = (r, s')"
  shows "codeGraph s' = codeGraph s \<and> workspace s' = workspace s
       \<and> (\<exists>evs. trace s' = trace s @ evs \<and> list_all (\<lambda>ev. \<not> isParse ev) evs)"
proof (cases "ns = []")
  case True
  with assms show ?thesis by (simp add: persistNodes_def)
next
  case False
  show ?thesis
  proof (cases "skeletonizeCodeNodes (length ns) e (codeGraph s) ns")
    case None
    with assms False show ?thesis by (simp add: persistNodes_def)
  next
    case (Some a)
    obtain x evs where a: "a = (x, evs)" by (cases a) auto
    from skeletonizeCodeNodes_events [OF Some [unfolded a]]
    have plain: "list_all (\<lambda>ev. \<not> isParse ev) evs"
      by (auto simp: list_all_iff dest: skeletonEvent_plain)
    from assms False Some a
    have "codeGraph s' = codeGraph s \<and> workspace s' = workspace s
        \<and> (trace s' = trace s @ evs
           \<or> (\<exists>t. trace s' = trace s @ evs @ [TasksDetached t])
           \<or> (\<exists>d i x t b. trace s' = trace s @ evs @ [Save d i x t b]))"
      by (auto simp: persistNodes_def Let_def emit_def detached_def
          split: sum.splits option.splits if_splits)
    with plain show ?thesis by auto
  qed
qed

lemma persistNodes_keeps:
  assumes "persistNodes e fb ns s = (r, s')" and "keeps e ws u n s"
  shows "keeps e ws u n s'"
proof -
  from persistNodes_frame [OF assms(1)] obtain evs where
    f: "codeGraph s' = codeGraph s" "workspace s' = workspace s"
    "trace s' = trace s @ evs" "list_all (\<lambda>ev. \<not> isParse ev) evs"
    by auto
  then have "CreateNodes u \<notin> set evs" by (auto simp: list_all_iff)
  with f assms(2) show ?thesis by (simp add: keeps_def count_list_append_none)
qed

lemma remove_keeps_current:
  assumes "isCurrent e ws g u" and "Some rel \<noteq> relOf e ws u"
  shows "isCurrent e ws (removeFileFromSymbolTable g rel) u"
  using assms
  by (auto simp: isCurrent_def removeFileFromSymbolTable_def delete_conv' split: option.splits)

lemma removeDocument_keeps:
  assumes "removeDocument e p s = (r, s')" and "keeps e ws u n s"
    and "Some (relative e ws p) \<noteq> relOf e ws u"
  shows "keeps e ws u n s'"
proof -
  from assms(2) have ws: "workspace s = ws" by (simp add: keeps_def)
  have "workspace s' = ws
      \<and> (codeGraph s' = codeGraph s
         \<or> codeGraph s' = removeFileFromSymbolTable (codeGraph s) (relative e ws p))
      \<and> (\<exists>evs. trace s' = trace s @ evs \<and> CreateNodes u \<notin> set evs)"
    using assms(1) ws
    by (auto simp: removeDocument_def forgetFile_def emit_def Let_def
        split: sum.splits option.splits if_splits)
  with assms(2,3) show ?thesis
    by (auto simp: keeps_def count_list_append_none remove_keeps_current)
qed

lemma processDocument_keeps:
  assumes run: "processDocument e fb d s = (r, s')"
    and one: "oneDigestPerFile e ws u"
    and disk: "onDisk e ws u [d]"
    and k: "keeps e ws u n s"
  shows "keeps e ws u n s'"
proof (cases "d \<in> set (alreadyVisited s)")
  case True
  with run k show ?thesis by (simp add: processDocument_def)
next
  case fresh: False
  show ?thesis
  proof (cases "fileURLToPath e d")
    case None
    with run fresh k show ?thesis by (simp add: processDocument_def)
  next
    case (Some p)
    have ke: "keeps e ws u n (emit (ExistsSync p) s)"
      using k by (simp add: keeps_def emit_def)
    show ?thesis
    proof (cases "existsSync e p")
      case False
      with disk Some have "Some (relative e ws p) \<noteq> relOf e ws u"
        by (auto simp: onDisk_def)
      moreover from run fresh Some False
      have "removeDocument e p (emit (ExistsSync p) s) = (r, s')"
        by (simp add: processDocument_def)
      ultimately show ?thesis using removeDocument_keeps ke by blast
    next
      case True
      obtain r1 s1 where fl:
        "frontierLoop e \<lparr>pending = [d], relatedNodes = [d], nodesToProcess = []\<rparr>
           (emit (ExistsSync p) s) = (r1, s1)"
        by (cases "frontierLoop e \<lparr>pending = [d], relatedNodes = [d], nodesToProcess = []\<rparr>
           (emit (ExistsSync p) s)") auto
      note k1 = frontierLoop_keeps [OF fl one ke]
      show ?thesis
      proof (cases "\<exists>v. r1 = Next v")
        case True
        then obtain v where "r1 = Next v" ..
        with run fresh Some \<open>existsSync e p\<close> fl
        have "persistNodes e fb (map snd (nodesToProcess v)) s1 = (r, s')"
          by (simp add: processDocument_def)
        from persistNodes_keeps [OF this k1] show ?thesis .
      next
        case False
        with run fresh Some \<open>existsSync e p\<close> fl have "s' = s1"
          by (auto simp: processDocument_def split: step.splits)
        with k1 show ?thesis by simp
      qed
    qed
  qed
qed

lemma documentLoop_keeps:
  "documentLoop e fb us s = (r, s') \<Longrightarrow> oneDigestPerFile e ws u \<Longrightarrow> onDisk e ws u us \<Longrightarrow>
     keeps e ws u n s \<Longrightarrow> keeps e ws u n s'"
proof (induction us arbitrary: s)
  case Nil
  then show ?case by simp
next
  case (Cons d us)
  obtain r1 s1 where one: "processDocument e fb d s = (r1, s1)"
    by (cases "processDocument e fb d s") auto
  from Cons.prems(3) have disk: "onDisk e ws u [d]" "onDisk e ws u us"
    by (simp_all add: onDisk_def)
  note k1 = processDocument_keeps [OF one Cons.prems(2) disk(1) Cons.prems(4)]
  show ?case
  proof (cases "r1 = Return \<or> r1 = Diverge")
    case True
    with Cons.prems(1) one have "s' = s1" by auto
    with k1 show ?thesis by simp
  next
    case False
    with Cons.prems(1) one have "documentLoop e fb us s1 = (r, s')"
      by (cases r1) auto
    from Cons.IH [OF this Cons.prems(2) disk(2) k1] show ?thesis .
  qed
qed

lemma current_document_is_not_reparsed:
  assumes cur: "isCurrent e (workspace ix) (codeGraph ix) u"
    and one: "oneDigestPerFile e (workspace ix) u"
    and disk: "onDisk e (workspace ix) u batch"
  shows "count_list (trace (snd (processDocuments e (Some batch) fb ix))) (CreateNodes u)
           = count_list (trace ix) (CreateNodes u)
       \<and> isCurrent e (workspace ix) (codeGraph (snd (processDocuments e (Some batch) fb ix))) u"
proof (cases "workspace ix \<noteq> [] \<and> batch \<noteq> []")
  case False
  then have "processDocuments e (Some batch) fb ix = (Resolved, ix\<lparr>syncing := False\<rparr>)"
    by (auto simp: processDocuments_def)
  with cur show ?thesis by simp
next
  case True
  obtain r s' where dl: "documentLoop e fb batch (startPass ix) = (r, s')"
    by (cases "documentLoop e fb batch (startPass ix)") auto
  from cur have "keeps e (workspace ix) u (count_list (trace ix) (CreateNodes u)) (startPass ix)"
    by (simp add: keeps_def)
  from documentLoop_keeps [OF dl one disk this]
  have k: "keeps e (workspace ix) u (count_list (trace ix) (CreateNodes u)) s'" .
  from True dl have "trace (snd (processDocuments e (Some batch) fb ix)) = trace s'"
    "codeGraph (snd (processDocuments e (Some batch) fb ix)) = codeGraph s'"
    by (auto simp: processDocuments_def split: step.splits)
  with k show ?thesis by (simp add: keeps_def)
qed

lemma count_list_app: "count_list (xs @ ys) x = count_list xs x + count_list ys x"
  by (induction xs) auto


lemma included_emit [simp]: "included e rel (emit ev s) = included e rel s"
  by (simp add: included_def emit_def split: option.splits)

lemma addRelated_twice [simp]: "addRelated u (addRelated u v) = addRelated u v"
  by (simp add: addRelated_def)

lemma addRelated_nodes [simp]:
  "pending (addRelated u (v\<lparr>nodesToProcess := x\<rparr>)) = pending (addRelated u v)"
  "relatedNodes (addRelated u (v\<lparr>nodesToProcess := x\<rparr>)) = relatedNodes (addRelated u v)"
  by (simp_all add: addRelated_def)

lemma frontierLoop_first_visit:
  assumes "pending v = d # rest" and "d \<notin> set (alreadyVisited s)"
    and "frontierLoop e v s = (r, s')"
  shows "\<exists>r1 s1. visitDocument e d (v\<lparr>pending := rest\<rparr>) s = (r1, s1) \<and> frontierStep s1 s'"
proof -
  obtain r1 s1 where vd: "visitDocument e d (v\<lparr>pending := rest\<rparr>) s = (r1, s1)"
    by (cases "visitDocument e d (v\<lparr>pending := rest\<rparr>) s") auto
  show ?thesis
  proof (cases "\<exists>v1. r1 = Next v1")
    case True
    then obtain v1 where "r1 = Next v1" ..
    with assms vd have "frontierLoop e v1 s1 = (r, s')" by (simp add: frontierLoop_fresh)
    from frontierLoop_frontierStep [OF this] vd show ?thesis by blast
  next
    case False
    with assms vd have "s' = s1" by (auto simp: frontierLoop_fresh split: step.splits)
    with vd show ?thesis by (auto simp: frontierStep_refl)
  qed
qed






lemma included_startPass [simp]: "included e rel (startPass ix) = included e rel ix"
  by (simp add: included_def split: option.splits)

lemma emit_afterRead:
  "emit (ReadDocument d) (s\<lparr>alreadyVisited := alreadyVisited s @ [d]\<rparr>) = afterRead d s"
  by (simp add: emit_def afterRead_def)

lemma emit_afterParse:
  "emit (CreateNodes d) (emit (ReadDocument d)
     (emit (CallbackDetached (OnFileProcessing rel)) (afterRead d s))) = afterParse rel d s"
  by (simp add: emit_def afterRead_def afterParse_def)

lemma afterRead_fields [simp]:
  "workspace (afterRead d s) = workspace s"
  "codeGraph (afterRead d s) = codeGraph s"
  "fileHashMap (afterRead d s) = fileHashMap s"
  "matchedFilesCache (afterRead d s) = matchedFilesCache s"
  "inclusionFilter (afterRead d s) = inclusionFilter s"
  "alreadyVisited (afterRead d s) = alreadyVisited s @ [d]"
  by (simp_all add: afterRead_def)

lemma afterParse_fields [simp]:
  "workspace (afterParse rel d s) = workspace s"
  "codeGraph (afterParse rel d s) = codeGraph s"
  "fileHashMap (afterParse rel d s) = fileHashMap s"
  "matchedFilesCache (afterParse rel d s) = matchedFilesCache s"
  "inclusionFilter (afterParse rel d s) = inclusionFilter s"
  "alreadyVisited (afterParse rel d s) = alreadyVisited s @ [d]"
  by (simp_all add: afterParse_def)

lemma visitDocument_updated:
  assumes "getFileFromSymbolTable e d (workspace s) (codeGraph s) = Inr (f, rel, h)"
    and "\<not> alreadyIndexed f h (map_of (fileHashMap s) rel)"
    and "getTextDocumentFromUri e d = Some t"
    and "createNodesFromDocument e d t = Inr (Some pr)"
    and "pr_nodes pr \<noteq> []"
    and "nodeLoop e d (pr_nodes pr) (v, []) (afterParse rel d s) = (Next acc, s3)"
  shows "visitDocument e d v s =
           (Next (fst acc),
            s3\<lparr>codeGraph := updateFileWithEdges (codeGraph s3) rel \<lparr>nodeIds = snd acc, sha = h\<rparr>
                               (pr_importEdges pr) (pr_exportEdges pr),
               fileHashMap := AList.update rel h (fileHashMap s3)\<rparr>)"
  using assms
  by (simp add: visitDocument_def Let_def emit_afterRead emit_afterParse)


subsection \<open>A stale import is queued and reached\<close>












subsection \<open>The promise settles\<close>

lemma keyed_empty: "keyed []"
  by (simp add: keyed_def)

lemma update_member:
  "kv \<in> set (AList.update k x m) \<Longrightarrow> kv = (k, x) \<or> kv \<in> set m"
  by (induction m) (auto split: if_splits)

lemma keyed_update: "keyed m \<Longrightarrow> keyed (AList.update (nodeId n) n m)"
  unfolding keyed_def list_all_iff
  by (auto simp: distinct_update dest!: update_member)

lemma keyed_distinct: "keyed m \<Longrightarrow> distinct (map nodeId (map snd m))"
proof -
  assume k: "keyed m"
  then have "map nodeId (map snd m) = map fst m"
    by (simp add: keyed_def list_all_iff)
  with k show ?thesis by (simp only: keyed_def)
qed

lemma addRelated_keeps_nodes [simp]: "nodesToProcess (addRelated u v) = nodesToProcess v"
  by (simp add: addRelated_def)

lemma nodeLoop_keyed:
  "nodeLoop e d ns acc s = (Next acc', s') \<Longrightarrow> keyed (nodesToProcess (fst acc))
     \<Longrightarrow> keyed (nodesToProcess (fst acc'))"
proof (induction ns arbitrary: acc s)
  case Nil
  then show ?case by simp
next
  case (Cons n ns)
  show ?case
  proof (cases "uri (location n) \<noteq> d")
    case foreign: True
    show ?thesis
    proof (cases "getFileFromSymbolTable e (uri (location n)) (workspace s) (codeGraph s)")
      case (Inl err)
      with Cons.prems foreign show ?thesis by auto
    next
      case (Inr x)
      obtain f0 rel h where x: "x = (f0, rel, h)" by (cases x) auto
      obtain b s1 where inc:
        "shouldIncludeFile e rel (emit (ReadDocument (uri (location n))) s) = (b, s1)"
        by (cases "shouldIncludeFile e rel (emit (ReadDocument (uri (location n))) s)") auto
      from Cons.prems(1) foreign Inr x inc
      have "\<exists>acc1. nodeLoop e d ns acc1 s1 = (Next acc', s')
              \<and> nodesToProcess (fst acc1) = nodesToProcess (fst acc)"
        by (cases acc) (auto split: if_splits)
      then obtain acc1 where "nodeLoop e d ns acc1 s1 = (Next acc', s')"
        "nodesToProcess (fst acc1) = nodesToProcess (fst acc)" by blast
      with Cons.IH [of acc1 s1] Cons.prems(2) show ?thesis by simp
    qed
  next
    case own: False
    show ?thesis
    proof (cases "fileURLToPath e (nodeId n)")
      case None
      with Cons.prems own show ?thesis by auto
    next
      case (Some p)
      with Cons.prems(1) own
      have "\<exists>acc1. nodeLoop e d ns acc1 s = (Next acc', s')
              \<and> nodesToProcess (fst acc1) = AList.update (nodeId n) n (nodesToProcess (fst acc))"
        by (cases acc) auto
      then obtain acc1 where "nodeLoop e d ns acc1 s = (Next acc', s')"
        "nodesToProcess (fst acc1) = AList.update (nodeId n) n (nodesToProcess (fst acc))"
        by blast
      with Cons.IH [of acc1 s] keyed_update [OF Cons.prems(2)] show ?thesis by simp
    qed
  qed
qed

lemma nodeLoop_settles: "fst (nodeLoop e d ns acc s) \<noteq> Diverge"
proof (induction ns arbitrary: acc s)
  case Nil
  show ?case by simp
next
  case (Cons n ns)
  show ?case
    by (cases acc) (auto simp: Cons.IH split: sum.splits prod.splits option.splits)
qed

lemma visitDocument_keyed:
  assumes "visitDocument e d v s = (Next v', s')" and "keyed (nodesToProcess v)"
  shows "keyed (nodesToProcess v')"
  using assms
  by (auto simp: visitDocument_def Let_def
      split: sum.splits option.splits if_splits prod.splits step.splits
      dest!: nodeLoop_keyed)

lemma visitDocument_settles: "fst (visitDocument e d v s) \<noteq> Diverge"
proof -
  have "\<And>ns acc s0 s1. nodeLoop e d ns acc s0 = (Diverge, s1) \<Longrightarrow> False"
    using nodeLoop_settles by (metis fst_conv)
  then show ?thesis
    by (auto simp: visitDocument_def Let_def
        split: sum.splits option.splits if_splits prod.splits step.splits)
qed

lemma frontierLoop_keyed:
  assumes "frontierLoop e v s = (r, s')"
  shows "keyed (nodesToProcess v) \<Longrightarrow>
           r \<noteq> Diverge \<and> (\<forall>v'. r = Next v' \<longrightarrow> keyed (nodesToProcess v'))"
  using assms
proof (induction rule: frontierLoop_run)
  case (empty v s)
  then show ?case by simp
next
  case (visited v s d rest r s')
  then show ?case by simp
next
  case (stop v s d rest r1 s1)
  with visitDocument_settles [of e d "v\<lparr>pending := rest\<rparr>" s] show ?case by auto
next
  case (go v s d rest v1 s1 r s')
  from visitDocument_keyed [OF go(3)] go(6) have "keyed (nodesToProcess v1)" by simp
  with go(5) show ?case by simp
qed

lemma persistNodes_settles:
  assumes "distinct (map nodeId nodes)"
  shows "fst (persistNodes e fb nodes s) \<noteq> Diverge"
  using skeletonizeCodeNodes_returns [OF assms, of e "codeGraph s"]
  by (auto simp: persistNodes_def Let_def split: option.splits sum.splits prod.splits)

lemma removeDocument_settles: "fst (removeDocument e p s) \<noteq> Diverge"
  by (auto simp: removeDocument_def Let_def split: option.splits sum.splits)

lemma processDocument_settles: "fst (processDocument e fb u s) \<noteq> Diverge"
proof (cases "u \<in> set (alreadyVisited s)")
  case True
  then show ?thesis by (simp add: processDocument_def)
next
  case fresh: False
  show ?thesis
  proof (cases "fileURLToPath e u")
    case None
    with fresh show ?thesis by (simp add: processDocument_def)
  next
    case (Some p)
    show ?thesis
    proof (cases "existsSync e p")
      case False
      with fresh Some removeDocument_settles show ?thesis by (simp add: processDocument_def)
    next
      case True
      let ?v = "\<lparr>pending = [u], relatedNodes = [u], nodesToProcess = []\<rparr>"
      obtain r s1 where fl: "frontierLoop e ?v (emit (ExistsSync p) s) = (r, s1)"
        by (cases "frontierLoop e ?v (emit (ExistsSync p) s)") auto
      from frontierLoop_keyed [OF fl] keyed_empty
      have k: "r \<noteq> Diverge" "\<And>v'. r = Next v' \<Longrightarrow> keyed (nodesToProcess v')" by auto
      show ?thesis
      proof (cases r)
        case (Next v')
        from persistNodes_settles [OF keyed_distinct [OF k(2) [OF Next]]]
        show ?thesis using fresh Some True fl Next by (simp add: processDocument_def)
      qed (use fresh Some True fl k(1) in \<open>simp_all add: processDocument_def\<close>)
    qed
  qed
qed

lemma documentLoop_settles:
  "fst (documentLoop e fb us s) = Next () \<or> fst (documentLoop e fb us s) = Return"
proof (induction us arbitrary: s)
  case Nil
  show ?case by simp
next
  case (Cons u us)
  obtain r s1 where pd: "processDocument e fb u s = (r, s1)"
    by (cases "processDocument e fb u s") auto
  with processDocument_settles [of e fb u s] have "r \<noteq> Diverge" by simp
  with pd Cons.IH [of s1] show ?case by (cases r) auto
qed

lemma processDocuments_resolves: "fst (processDocuments e uris fb ix) = Resolved"
proof (cases "\<exists>us. uris = Some us \<and> workspace ix \<noteq> [] \<and> us \<noteq> []")
  case False
  then have "processDocuments e uris fb ix = (Resolved, ix\<lparr>syncing := False\<rparr>)"
    by (auto simp: processDocuments_def split: option.splits)
  then show ?thesis by simp
next
  case True
  then obtain us where us: "uris = Some us" "workspace ix \<noteq> []" "us \<noteq> []" by auto
  obtain r s' where dl: "documentLoop e fb us (startPass ix) = (r, s')"
    by (cases "documentLoop e fb us (startPass ix)") auto
  with documentLoop_settles [of e fb us "startPass ix"] have "r = Next () \<or> r = Return"
    by simp
  with us dl show ?thesis
    by (auto simp: processDocuments_def)
qed

section \<open>The claims\<close>

text \<open>
  C10: if the \<open>documentUris\<close> argument is empty or undefined, or the workspace string is
  empty, \<open>processDocuments\<close> returns without a call to any collaborator (no file is read,
  no store operation is invoked: the trace is as it was), the code graph is as it was,
  and \<open>isSyncing\<close> is false afterwards.
\<close>

theorem guard_returns_untouched:
  assumes "workspace ix = [] \<or> documentUris = None \<or> documentUris = Some []"
  shows "processDocuments e documentUris fullBuild ix = (Resolved, ix\<lparr>syncing := False\<rparr>)
       \<and> trace (snd (processDocuments e documentUris fullBuild ix)) = trace ix
       \<and> codeGraph (snd (processDocuments e documentUris fullBuild ix)) = codeGraph ix
       \<and> \<not> isSyncing (snd (processDocuments e documentUris fullBuild ix))"
proof -
  from assms
  have "processDocuments e documentUris fullBuild ix = (Resolved, ix\<lparr>syncing := False\<rparr>)"
    by (auto simp: processDocuments_def split: option.splits)
  then show ?thesis by (simp add: isSyncing_def)
qed

theorem guard_returns_untouched_witness:
  "processDocuments sampleEnv (Some []) True (freshIndexer\<lparr>syncing := True\<rparr>)
     = (Resolved, freshIndexer\<lparr>syncing := False\<rparr>)
   \<and> processDocuments sampleEnv None True freshIndexer = (Resolved, freshIndexer)
   \<and> processDocuments sampleEnv (Some [uriA]) False (freshIndexer\<lparr>workspace := []\<rparr>)
     = (Resolved, freshIndexer\<lparr>workspace := []\<rparr>)"
  using guard_returns_untouched [of "freshIndexer\<lparr>syncing := True\<rparr>" "Some []" sampleEnv True]
    guard_returns_untouched [of freshIndexer None sampleEnv True]
    guard_returns_untouched [of "freshIndexer\<lparr>workspace := []\<rparr>" "Some [uriA]" sampleEnv False]
  by (simp add: freshIndexer_def)

text \<open>
  C5, evaluated: in the sample workspace \<open>a.ts\<close> matches the configured filter and
  \<open>shouldIncludeFile\<close> says so on a fresh indexer. After \<open>clearCache\<close> the next call
  makes no call to \<open>glob\<close> (the state is returned as it is) and answers false for the
  same file under the same filter.
\<close>

theorem clearCache_leaves_empty_cache:
  "fst (shouldIncludeFile sampleEnv ''a.ts'' freshIndexer)
   \<and> ''a.ts'' \<in> set (glob sampleEnv (inclusionFilter freshIndexer) (workspace freshIndexer))
   \<and> shouldIncludeFile sampleEnv ''a.ts''
        (clearCache (snd (shouldIncludeFile sampleEnv ''a.ts'' freshIndexer)))
      = (False, clearCache (snd (shouldIncludeFile sampleEnv ''a.ts'' freshIndexer)))"
  by code_simp

text \<open>
  C2, evaluated: a pass over the one document \<open>z.ts\<close>, whose parse yields no node,
  settles (the promise resolves) and \<open>isSyncing\<close> is still true afterwards.
\<close>

theorem zero_node_parse_leaves_syncing_set:
  "fst (processDocuments sampleEnv (Some [uriZ]) False freshIndexer) = Resolved
   \<and> isSyncing (snd (processDocuments sampleEnv (Some [uriZ]) False freshIndexer))"
  by code_simp

text \<open>
  C1, evaluated: in the batch \<open>[z.ts, a.ts]\<close> the parse of \<open>z.ts\<close> yields no node and
  the pass ends there: no call is made for \<open>a.ts\<close>, which a pass of its own parses.
\<close>

theorem zero_node_parse_ends_the_pass:
  "processDocuments sampleEnv (Some [uriZ, uriA]) False freshIndexer
     = (Resolved,
        freshIndexer\<lparr>syncing := True,
          trace := [ExistsSync ''/w/z.ts'', ReadDocument uriZ,
                    CallbackDetached (OnFileProcessing ''z.ts''),
                    ReadDocument uriZ, CreateNodes uriZ]\<rparr>)
   \<and> CreateNodes uriA
       \<in> set (trace (snd (processDocuments sampleEnv (Some [uriA]) False freshIndexer)))"
  by code_simp




text \<open>
  C8, as amended: when \<open>VectorStore.save\<close> fails while the results of an identifier are
  committed, the iteration has called \<open>save\<close> once and ends by throwing that error; the
  \<open>catch\<close> of the outer loop takes it and the loop goes on with the next identifier. No
  pass calls \<open>save\<close> more often than once per identifier of the batch, and the promise of
  \<open>processDocuments\<close> is never rejected: it resolves, whatever the store answers.
\<close>

theorem save_failure_is_caught_not_retried:
  "(nodes \<noteq> []
      \<and> skeletonizeCodeNodes (length nodes) e (codeGraph s) nodes = Some (Inr skeletons, evs)
      \<and> skeletons \<noteq> []
      \<and> embedCodeGraph e (workspace s) (codeGraph s) skeletons = Inr res
      \<and> save e (codeDocs res) (relativeImports res) (relativeExports res)
            (symbolTable (codeGraph s)) (\<not> fullBuild) = Some err
    \<longrightarrow> persistNodes e fullBuild nodes s =
          (Throw err,
           s\<lparr>trace := trace s @ evs
                @ [Save (codeDocs res) (relativeImports res) (relativeExports res)
                     (symbolTable (codeGraph s)) (\<not> fullBuild)]\<rparr>)
        \<and> filter isSave evs = [])
   \<and> (processDocument e fullBuild documentUri s = (Throw err, s1)
        \<longrightarrow> documentLoop e fullBuild (documentUri # rest) s = documentLoop e fullBuild rest s1)
   \<and> length (filter isSave (trace (snd (processDocuments e (Some uris) fullBuild ix))))
        \<le> length (filter isSave (trace ix)) + length uris
   \<and> fst (processDocuments e documentUris fullBuild ix) = Resolved"
proof -
  have one: "nodes \<noteq> []
      \<and> skeletonizeCodeNodes (length nodes) e (codeGraph s) nodes = Some (Inr skeletons, evs)
      \<and> skeletons \<noteq> []
      \<and> embedCodeGraph e (workspace s) (codeGraph s) skeletons = Inr res
      \<and> save e (codeDocs res) (relativeImports res) (relativeExports res)
            (symbolTable (codeGraph s)) (\<not> fullBuild) = Some err
    \<longrightarrow> persistNodes e fullBuild nodes s =
          (Throw err,
           s\<lparr>trace := trace s @ evs
                @ [Save (codeDocs res) (relativeImports res) (relativeExports res)
                     (symbolTable (codeGraph s)) (\<not> fullBuild)]\<rparr>)
        \<and> filter isSave evs = []"
  proof (intro impI, elim conjE)
    assume a: "nodes \<noteq> []"
      "skeletonizeCodeNodes (length nodes) e (codeGraph s) nodes = Some (Inr skeletons, evs)"
      "skeletons \<noteq> []"
      "embedCodeGraph e (workspace s) (codeGraph s) skeletons = Inr res"
      "save e (codeDocs res) (relativeImports res) (relativeExports res)
            (symbolTable (codeGraph s)) (\<not> fullBuild) = Some err"
    from skeletonizeCodeNodes_events [OF a(2)] have "filter isSave evs = []"
      using skeletonEvent_plain by (fastforce simp: list_all_iff filter_empty_conv)
    with a show "persistNodes e fullBuild nodes s =
          (Throw err,
           s\<lparr>trace := trace s @ evs
                @ [Save (codeDocs res) (relativeImports res) (relativeExports res)
                     (symbolTable (codeGraph s)) (\<not> fullBuild)]\<rparr>)
        \<and> filter isSave evs = []"
      by (simp add: persistNodes_def emit_def Let_def)
  qed
  have two: "processDocument e fullBuild documentUri s = (Throw err, s1)
        \<longrightarrow> documentLoop e fullBuild (documentUri # rest) s = documentLoop e fullBuild rest s1"
    by simp
  from processDocuments_trace [of e "Some uris" fullBuild ix]
  have three: "length (filter isSave (trace (snd (processDocuments e (Some uris) fullBuild ix))))
        \<le> length (filter isSave (trace ix)) + length uris"
    by auto
  from one two three processDocuments_resolves [of e documentUris fullBuild ix]
  show ?thesis by blast
qed

theorem save_failure_is_caught_not_retried_witness:
  "persistNodes failingStore False [nodeB] (startPass freshIndexer)
     = (Throw PersistenceFailure,
        (startPass freshIndexer)
          \<lparr>trace := [ReadDocument uriB, Generate nodeB ''export g'',
                     Save [documentB] [] [] [] True]\<rparr>)
   \<and> fst (processDocument failingStore False uriA (startPass freshIndexer)) = Throw PersistenceFailure
   \<and> documentLoop failingStore False [uriA, uriZ] (startPass freshIndexer)
       = documentLoop failingStore False [uriZ]
           (snd (processDocument failingStore False uriA (startPass freshIndexer)))
   \<and> length (filter isSave
        (trace (snd (processDocuments failingStore (Some [uriA, uriZ]) False freshIndexer)))) \<le> 2
   \<and> fst (processDocuments failingStore (Some [uriA, uriZ]) False freshIndexer) = Resolved"
proof -
  have g: "codeGraph (startPass freshIndexer) = emptyGraph"
    "workspace (startPass freshIndexer) = ''/w''"
    "trace freshIndexer = []"
    "symbolTable emptyGraph = []"
    "symbolTable (codeGraph freshIndexer) = []"
    by (simp_all add: freshIndexer_def emptyGraph_def)
  have h1: "[nodeB] \<noteq> []" by simp
  have h2: "skeletonizeCodeNodes (length [nodeB]) failingStore
              (codeGraph (startPass freshIndexer)) [nodeB]
            = Some (Inr [skeletonB], [ReadDocument uriB, Generate nodeB ''export g''])"
    unfolding g by code_simp
  have h3: "[skeletonB] \<noteq> []" by simp
  have h4: "embedCodeGraph failingStore (workspace (startPass freshIndexer))
              (codeGraph (startPass freshIndexer)) [skeletonB]
            = Inr \<lparr>codeDocs = [documentB], relativeImports = [], relativeExports = []\<rparr>"
    unfolding g by code_simp
  have h5: "save failingStore
              (codeDocs \<lparr>codeDocs = [documentB], relativeImports = [], relativeExports = []\<rparr>)
              (relativeImports \<lparr>codeDocs = [documentB], relativeImports = [], relativeExports = []\<rparr>)
              (relativeExports \<lparr>codeDocs = [documentB], relativeImports = [], relativeExports = []\<rparr>)
              (symbolTable (codeGraph (startPass freshIndexer))) (\<not> False)
            = Some PersistenceFailure"
    by (simp add: failingStore_def)
  have h6: "fst (processDocument failingStore False uriA (startPass freshIndexer))
             = Throw PersistenceFailure"
    by code_simp
  then have h7: "processDocument failingStore False uriA (startPass freshIndexer)
             = (Throw PersistenceFailure,
                snd (processDocument failingStore False uriA (startPass freshIndexer)))"
    by (simp add: prod_eq_iff)
  from save_failure_is_caught_not_retried
         [of "[nodeB]" failingStore "startPass freshIndexer" "[skeletonB]"
             "[ReadDocument uriB, Generate nodeB ''export g'']"
             "\<lparr>codeDocs = [documentB], relativeImports = [], relativeExports = []\<rparr>" False
             PersistenceFailure uriA
             "snd (processDocument failingStore False uriA (startPass freshIndexer))"
             "[uriZ]" "[uriA, uriZ]" freshIndexer "Some [uriA, uriZ]"]
       h1 h2 h3 h4 h5 h7
  show ?thesis using h6 by (simp del: documentLoop.simps add: g)
qed

text \<open>
  C8 as stated fails: with a store whose \<open>save\<close> always fails, the pass over \<open>a.ts\<close>
  calls \<open>save\<close> once and its promise resolves; the flag is reset as after any pass.
\<close>

theorem save_failure_rejects_counterexample:
  "fst (processDocuments failingStore (Some [uriA]) False freshIndexer) = Resolved
   \<and> length (filter isSave
        (trace (snd (processDocuments failingStore (Some [uriA]) False freshIndexer)))) = 1
   \<and> \<not> isSyncing (snd (processDocuments failingStore (Some [uriA]) False freshIndexer))"
  by code_simp

text \<open>
  C4, as amended: a document whose symbol-table entry exists and holds the digest of its
  current text, or whose entry exists while \<open>fileHashMap\<close> holds that digest from earlier
  in the pass, is not reparsed: the loop reads it, marks it visited and goes on. Through a
  whole pass over any batch such a document is never passed to the parser and stays
  current (given that its relative path denotes one file content, and that the file is
  on disk). A pass over a document that is current calls \<open>existsSync\<close> and reads the
  document and nothing else: no parse, no store call, the code graph as it was. And a
  document is current after a visit that has parsed it and gone on: the parse has
  yielded a node, the loop over the nodes has not thrown, and the digest has been stored.
\<close>

theorem unchanged_document_is_not_reparsed:
  "(getFileFromSymbolTable e d (workspace s) (codeGraph s) = Inr (Some f, rel, h)
      \<and> (sha f = h \<or> map_of (fileHashMap s) rel = Some h)
    \<longrightarrow> visitDocument e d v s = (Next v, afterRead d s))
   \<and> (isCurrent e (workspace ix) (codeGraph ix) d
      \<and> oneDigestPerFile e (workspace ix) d \<and> onDisk e (workspace ix) d batch
    \<longrightarrow> count_list (trace (snd (processDocuments e (Some batch) fullBuild ix))) (CreateNodes d)
          = count_list (trace ix) (CreateNodes d)
        \<and> isCurrent e (workspace ix)
            (codeGraph (snd (processDocuments e (Some batch) fullBuild ix))) d)
   \<and> (isCurrent e (workspace ix) (codeGraph ix) d \<and> workspace ix \<noteq> []
      \<and> fileURLToPath e d = Some p \<and> existsSync e p
    \<longrightarrow> processDocuments e (Some [d]) fullBuild ix
          = (Resolved, ix\<lparr>syncing := False, trace := trace ix @ [ExistsSync p, ReadDocument d]\<rparr>))
   \<and> (visitDocument e d v s = (Next v', s')
      \<and> count_list (trace s) (CreateNodes d) < count_list (trace s') (CreateNodes d)
    \<longrightarrow> isCurrent e (workspace s) (codeGraph s') d)"
proof -
  have a: "getFileFromSymbolTable e d (workspace s) (codeGraph s) = Inr (Some f, rel, h)
      \<and> (sha f = h \<or> map_of (fileHashMap s) rel = Some h)
    \<longrightarrow> visitDocument e d v s = (Next v, afterRead d s)"
    by (auto simp: visitDocument_def alreadyIndexed_def afterRead_def emit_def Let_def)
  have b: "isCurrent e (workspace ix) (codeGraph ix) d
      \<and> oneDigestPerFile e (workspace ix) d \<and> onDisk e (workspace ix) d batch
    \<longrightarrow> count_list (trace (snd (processDocuments e (Some batch) fullBuild ix))) (CreateNodes d)
          = count_list (trace ix) (CreateNodes d)
        \<and> isCurrent e (workspace ix)
            (codeGraph (snd (processDocuments e (Some batch) fullBuild ix))) d"
    using current_document_is_not_reparsed by blast
  have c: "isCurrent e (workspace ix) (codeGraph ix) d \<and> workspace ix \<noteq> []
      \<and> fileURLToPath e d = Some p \<and> existsSync e p
    \<longrightarrow> processDocuments e (Some [d]) fullBuild ix
          = (Resolved, ix\<lparr>syncing := False, trace := trace ix @ [ExistsSync p, ReadDocument d]\<rparr>)"
  proof (intro impI, elim conjE)
    assume cur: "isCurrent e (workspace ix) (codeGraph ix) d" and ws: "workspace ix \<noteq> []"
      and p: "fileURLToPath e d = Some p" and ex: "existsSync e p"
    from cur obtain rel h f0 where
      gf: "getFileFromSymbolTable e d (workspace ix) (codeGraph ix) = Inr (Some f0, rel, h)"
      and sh: "sha f0 = h"
      by (auto simp: isCurrent_def getFileFromSymbolTable_eq split: option.splits)
    define s1 where "s1 = emit (ExistsSync p) (startPass ix)"
    have s1: "workspace s1 = workspace ix" "codeGraph s1 = codeGraph ix" "alreadyVisited s1 = []"
      by (simp_all add: s1_def emit_def)
    have vd: "visitDocument e d \<lparr>pending = [], relatedNodes = [d], nodesToProcess = []\<rparr> s1
              = (Next \<lparr>pending = [], relatedNodes = [d], nodesToProcess = []\<rparr>, afterRead d s1)"
      using gf sh
      by (auto simp: visitDocument_def alreadyIndexed_def afterRead_def emit_def Let_def s1)
    have fl: "frontierLoop e \<lparr>pending = [d], relatedNodes = [d], nodesToProcess = []\<rparr> s1
              = (Next \<lparr>pending = [], relatedNodes = [d], nodesToProcess = []\<rparr>, afterRead d s1)"
      by (subst frontierLoop_fresh [where d = d and rest = "[]"])
         (simp_all add: s1 vd frontierLoop_empty)
    have pd: "processDocument e fullBuild d (startPass ix) = (Next (), afterRead d s1)"
      using p ex fl by (simp add: processDocument_def persistNodes_def s1_def)
    show "processDocuments e (Some [d]) fullBuild ix
          = (Resolved, ix\<lparr>syncing := False, trace := trace ix @ [ExistsSync p, ReadDocument d]\<rparr>)"
      using ws pd
      by (simp add: processDocuments_def afterRead_def s1_def emit_def startPass_def
          Indexer.truncate_def Indexer.extend_def Pass.fields_def)
  qed
  have d: "visitDocument e d v s = (Next v', s')
      \<and> count_list (trace s) (CreateNodes d) < count_list (trace s') (CreateNodes d)
    \<longrightarrow> isCurrent e (workspace s) (codeGraph s') d"
  proof (intro impI, elim conjE)
    assume vd: "visitDocument e d v s = (Next v', s')"
      and more: "count_list (trace s) (CreateNodes d) < count_list (trace s') (CreateNodes d)"
    from vd show "isCurrent e (workspace s) (codeGraph s') d"
    proof (cases rule: visitDocument_cases)
      case unparsed
      with more show ?thesis by (simp add: afterRead_def count_list_app)
    next
      case (stopped f rel h)
      from stopped(4) [of v'] show ?thesis by simp
    next
      case (updated f rel h t pr acc s3)
      from updated(1) have "relOf e (workspace s) d = Some rel" "digestOf e d = Some h"
        by (simp_all add: getFileFromSymbolTable_Inr)
      then show ?thesis
        by (simp add: isCurrent_def updated(8) updateFileWithEdges_def update_conv')
    qed
  qed
  from a b c d show ?thesis by blast
qed

theorem unchanged_document_is_not_reparsed_witness:
  "visitDocument sampleEnv uriA \<lparr>pending = [], relatedNodes = [uriA], nodesToProcess = []\<rparr>
      (startPass afterPassOverA)
     = (Next \<lparr>pending = [], relatedNodes = [uriA], nodesToProcess = []\<rparr>,
        afterRead uriA (startPass afterPassOverA))
   \<and> count_list (trace (snd (processDocuments sampleEnv (Some [uriB, uriA]) False afterPassOverA)))
        (CreateNodes uriA) = 1
   \<and> processDocuments sampleEnv (Some [uriA]) False afterPassOverA
     = (Resolved,
        afterPassOverA\<lparr>syncing := False,
          trace := trace afterPassOverA @ [ExistsSync ''/w/a.ts'', ReadDocument uriA]\<rparr>)
   \<and> isCurrent sampleEnv ''/w''
       (codeGraph (snd (visitDocument sampleEnv uriB
          \<lparr>pending = [], relatedNodes = [uriB], nodesToProcess = []\<rparr> (startPass freshIndexer))))
       uriB"
proof -
  define Y where "Y = visitDocument sampleEnv uriB
      \<lparr>pending = [], relatedNodes = [uriB], nodesToProcess = []\<rparr> (startPass freshIndexer)"
  have "case fst Y of Next v \<Rightarrow> True | _ \<Rightarrow> False" unfolding Y_def by code_simp
  then obtain v' where "fst Y = Next v'" by (cases "fst Y") auto
  then have h10: "visitDocument sampleEnv uriB
      \<lparr>pending = [], relatedNodes = [uriB], nodesToProcess = []\<rparr> (startPass freshIndexer)
        = (Next v', snd Y)"
    by (simp add: Y_def prod_eq_iff)
  have h11: "count_list (trace (startPass freshIndexer)) (CreateNodes uriB)
               < count_list (trace (snd Y)) (CreateNodes uriB)"
    unfolding Y_def by code_simp
  have h12: "workspace (startPass freshIndexer) = ''/w''" by code_simp
  have h1: "getFileFromSymbolTable sampleEnv uriA (workspace (startPass afterPassOverA))
              (codeGraph (startPass afterPassOverA))
            = Inr (Some \<lparr>nodeIds = [''a.ts#f''], sha = ''import b''\<rparr>, ''a.ts'', ''import b'')"
    by code_simp
  have h2: "sha \<lparr>nodeIds = [''a.ts#f''], sha = ''import b''\<rparr> = ''import b''
            \<or> map_of (fileHashMap (startPass afterPassOverA)) ''a.ts'' = Some ''import b''"
    by simp
  have h3: "isCurrent sampleEnv (workspace afterPassOverA) (codeGraph afterPassOverA) uriA"
    by code_simp
  have h4: "oneDigestPerFile sampleEnv (workspace afterPassOverA) uriA"
    by code_simp
  have h5: "onDisk sampleEnv (workspace afterPassOverA) uriA [uriB, uriA]"
    by code_simp
  have h6: "workspace afterPassOverA \<noteq> []" by code_simp
  have h7: "fileURLToPath sampleEnv uriA = Some ''/w/a.ts''" by code_simp
  have h8: "existsSync sampleEnv ''/w/a.ts''" by code_simp
  have h9: "count_list (trace afterPassOverA) (CreateNodes uriA) = 1" by code_simp
  from unchanged_document_is_not_reparsed
         [of sampleEnv uriA "startPass afterPassOverA" "\<lparr>nodeIds = [''a.ts#f''], sha = ''import b''\<rparr>"
             "''a.ts''" "''import b''" "\<lparr>pending = [], relatedNodes = [uriA], nodesToProcess = []\<rparr>"
             afterPassOverA "[uriB, uriA]" False "''/w/a.ts''"]
       h1 h2 h3 h4 h5 h6 h7 h8 h9
  have first: "visitDocument sampleEnv uriA \<lparr>pending = [], relatedNodes = [uriA], nodesToProcess = []\<rparr>
      (startPass afterPassOverA)
     = (Next \<lparr>pending = [], relatedNodes = [uriA], nodesToProcess = []\<rparr>,
        afterRead uriA (startPass afterPassOverA))
   \<and> count_list (trace (snd (processDocuments sampleEnv (Some [uriB, uriA]) False afterPassOverA)))
        (CreateNodes uriA) = 1
   \<and> processDocuments sampleEnv (Some [uriA]) False afterPassOverA
     = (Resolved,
        afterPassOverA\<lparr>syncing := False,
          trace := trace afterPassOverA @ [ExistsSync ''/w/a.ts'', ReadDocument uriA]\<rparr>)"
    by simp
  from unchanged_document_is_not_reparsed
         [of sampleEnv uriB "startPass freshIndexer" "\<lparr>nodeIds = [], sha = []\<rparr>"
             "''b.ts''" "''export g''"
             "\<lparr>pending = [], relatedNodes = [uriB], nodesToProcess = []\<rparr>"
             freshIndexer "[uriB]" False "''/w/b.ts''" v' "snd Y"]
       h10 h11 h12
  have "isCurrent sampleEnv ''/w'' (codeGraph (snd Y)) uriB" by simp
  with first show ?thesis by (simp add: Y_def)
qed

text \<open>
  C4 as stated fails for a document whose parse yields no node: its digest is never
  stored, so the second of two passes over the unchanged \<open>z.ts\<close> parses it again.
\<close>

theorem unchanged_document_reparsed_counterexample:
  "count_list (trace afterPassOverZ) (CreateNodes uriZ) = 1
   \<and> count_list (trace (snd (processDocuments sampleEnv (Some [uriZ]) False afterPassOverZ)))
        (CreateNodes uriZ) = 2"
  by code_simp




text \<open>
  C6, as amended: the root nodes of \<open>skeletonizeCodeNodes\<close> are the nodes whose
  \<open>parentNodeId\<close> is undefined or empty. When the call returns normally, every node that
  hangs from a root (a root, or a node whose \<open>parentNodeId\<close> is the id of a node that
  hangs from a root) and whose document is readable has been handed to the generator and
  its skeleton is in the result; no other node is handed to the generator. A node whose
  non-empty \<open>parentNodeId\<close> names no node of the set hangs from no root and contributes
  nothing. On a node set without repeated ids the call returns.
\<close>

theorem attached_nodes_are_skeletonized:
  "(skeletonizeCodeNodes fuel e g nodes = Some (Inr sks, evs)
    \<longrightarrow> snd (partitionNodes nodes) = filter (\<lambda>n. \<not> truthy (parentNodeId n)) nodes
        \<and> (\<forall>n. attached nodes n \<and> readable e n \<longrightarrow> producedIn e g n evs sks)
        \<and> (\<forall>n blk. Generate n blk \<in> set evs \<longrightarrow> attached nodes n))
   \<and> (truthy (parentNodeId n) \<and> parentNodeId n \<notin> set (map (\<lambda>m. Some (nodeId m)) nodes)
      \<longrightarrow> \<not> attached nodes n)
   \<and> (distinct (map nodeId nodes) \<longrightarrow> skeletonizeCodeNodes (length nodes) e g nodes \<noteq> None)"
proof -
  have a: "skeletonizeCodeNodes fuel e g nodes = Some (Inr sks, evs)
    \<longrightarrow> snd (partitionNodes nodes) = filter (\<lambda>n. \<not> truthy (parentNodeId n)) nodes
        \<and> (\<forall>n. attached nodes n \<and> readable e n \<longrightarrow> producedIn e g n evs sks)
        \<and> (\<forall>n blk. Generate n blk \<in> set evs \<longrightarrow> attached nodes n)"
    using partitionNodes_roots attached_nodes_contribute only_attached_nodes_generated
    by blast
  have b: "truthy (parentNodeId n) \<and> parentNodeId n \<notin> set (map (\<lambda>m. Some (nodeId m)) nodes)
      \<longrightarrow> \<not> attached nodes n"
  proof (intro impI notI, elim conjE)
    assume tr: "truthy (parentNodeId n)"
      and none: "parentNodeId n \<notin> set (map (\<lambda>m. Some (nodeId m)) nodes)"
      and att: "attached nodes n"
    from att show False
    proof (cases rule: attached.cases)
      case root
      with tr show False by simp
    next
      case (child p)
      from child(1) have "p \<in> set nodes" by (cases rule: attached.cases) auto
      with child none show False by auto
    qed
  qed
  from a b skeletonizeCodeNodes_returns [of nodes e g] show ?thesis by blast
qed

theorem attached_nodes_are_skeletonized_witness:
  "producedIn sampleEnv emptyGraph childNode
     [ReadDocument uriA, Generate childNode ''import b'',
      Generate parentNode ''import bsk:import b'']
     [skeletonOf childNode ''import b'', skeletonOf parentNode ''import bsk:import b'']
   \<and> \<not> attached [parentNode, childNode, orphanNode] orphanNode
   \<and> skeletonizeCodeNodes 3 sampleEnv emptyGraph [parentNode, childNode, orphanNode] \<noteq> None"
proof -
  have run: "skeletonizeCodeNodes 3 sampleEnv emptyGraph [parentNode, childNode, orphanNode]
      = Some (Inr [skeletonOf childNode ''import b'',
                   skeletonOf parentNode ''import bsk:import b''],
              [ReadDocument uriA, Generate childNode ''import b'',
               Generate parentNode ''import bsk:import b''])"
    by code_simp
  have p: "attached [parentNode, childNode, orphanNode] parentNode"
    by (rule attached.root) (simp_all add: parentNode_def mkNode_def truthy_def)
  have c: "attached [parentNode, childNode, orphanNode] childNode"
    by (rule attached.child [OF p])
       (simp_all add: parentNode_def childNode_def mkNode_def truthy_def uriA_def)
  have rd: "readable sampleEnv childNode" by code_simp
  have o: "truthy (parentNodeId orphanNode)
     \<and> parentNodeId orphanNode
         \<notin> set (map (\<lambda>m. Some (nodeId m)) [parentNode, childNode, orphanNode])"
    by code_simp
  have d: "distinct (map nodeId [parentNode, childNode, orphanNode])" by code_simp
  from attached_nodes_are_skeletonized
         [of 3 sampleEnv emptyGraph "[parentNode, childNode, orphanNode]"
             "[skeletonOf childNode ''import b'', skeletonOf parentNode ''import bsk:import b'']"
             "[ReadDocument uriA, Generate childNode ''import b'',
               Generate parentNode ''import bsk:import b'']" orphanNode]
       run c rd o d
  show ?thesis by simp
qed

text \<open>
  C6 as stated fails: the \<open>parentNodeId\<close> of the one node passed names no node of the
  set, its document is readable and the sample generator never fails; the node is not
  among the root nodes and the result is empty.
\<close>

theorem orphan_is_root_counterexample:
  "parentNodeId orphanNode \<notin> set (map (\<lambda>m. Some (nodeId m)) [orphanNode])
   \<and> readable sampleEnv orphanNode
   \<and> snd (partitionNodes [orphanNode]) = []
   \<and> skeletonizeCodeNodes 1 sampleEnv emptyGraph [orphanNode] = Some (Inr [], [])"
  by code_simp

text \<open>
  C7: whenever the generator is called for a node P, in a call of \<open>skeletonizeCodeNodes\<close>
  that returns or throws, under every order in which the environment lets the waiting
  tasks go on, every child of P has contributed before: the generator has been called
  for the child and the child's skeleton is in the result collection by then. The code
  block passed for P is the result of \<open>mergeCodeNodeSummariesIntoParent\<close> on P's
  location, P's raw text, the ids of the children of P and the collection as it is then
  (P's raw text when P has no child). The children of P are located in the document of P,
  as nodes nested in P are.
\<close>

theorem children_are_skeletonized_before_parent:
  assumes "skeletonizeCodeNodes fuel e g nodes = Some (res, evs)"
    and "evs = evs1 @ Generate p blk # rest"
    and "\<forall>c\<in>set (childNodesOf nodes p). uri (location c) = uri (location p)"
  shows "\<exists>sks1 t.
           getTextDocumentFromUri e (uri (location p)) = Some t
         \<and> blk = codeBlockFor e p t (childNodesOf nodes p) sks1
         \<and> (\<forall>c\<in>set (childNodesOf nodes p). producedIn e g c evs1 sks1)
         \<and> (\<forall>sks. res = Inr sks \<longrightarrow> (\<exists>rest'. sks = sks1 @ rest'))"
proof -
  from children_before_parent [OF assms(1,2)] obtain sks1 t where
    h: "getTextDocumentFromUri e (uri (location p)) = Some t"
      "blk = codeBlockFor e p t (childNodesOf nodes p) sks1"
      "\<forall>c\<in>set (childNodesOf nodes p). readable e c \<longrightarrow> producedIn e g c evs1 sks1"
      "\<forall>sks. res = Inr sks \<longrightarrow> (\<exists>rest'. sks = sks1 @ rest')"
    by blast
  from h(1) assms(3) have "\<forall>c\<in>set (childNodesOf nodes p). readable e c"
    by (simp add: readable_def)
  with h show ?thesis by blast
qed

theorem children_are_skeletonized_before_parent_witness:
  "\<exists>sks1.
     ''import bsk:import bsk:import b''
       = codeBlockFor sampleEnv parentNode ''import b'' [childNode, secondChild] sks1
     \<and> producedIn sampleEnv emptyGraph childNode
         [ReadDocument uriA, ReadDocument uriA, Generate childNode ''import b'',
          Generate secondChild ''import b''] sks1
     \<and> producedIn sampleEnv emptyGraph secondChild
         [ReadDocument uriA, ReadDocument uriA, Generate childNode ''import b'',
          Generate secondChild ''import b''] sks1
     \<and> (\<exists>rest'. [skeletonOf childNode ''import b'', skeletonOf secondChild ''import b'',
                  skeletonOf parentNode ''import bsk:import bsk:import b'']
                 = sks1 @ rest')"
proof -
  have run: "skeletonizeCodeNodes 3 sampleEnv emptyGraph [parentNode, childNode, secondChild]
      = Some (Inr [skeletonOf childNode ''import b'', skeletonOf secondChild ''import b'',
                   skeletonOf parentNode ''import bsk:import bsk:import b''],
              [ReadDocument uriA, ReadDocument uriA, Generate childNode ''import b'',
               Generate secondChild ''import b'',
               Generate parentNode ''import bsk:import bsk:import b''])"
    by code_simp
  have ev: "[ReadDocument uriA, ReadDocument uriA, Generate childNode ''import b'',
             Generate secondChild ''import b'',
             Generate parentNode ''import bsk:import bsk:import b'']
          = [ReadDocument uriA, ReadDocument uriA, Generate childNode ''import b'',
             Generate secondChild ''import b'']
            @ Generate parentNode ''import bsk:import bsk:import b'' # []"
    by simp
  have ch: "childNodesOf [parentNode, childNode, secondChild] parentNode
              = [childNode, secondChild]"
    by code_simp
  have same: "\<forall>c\<in>set (childNodesOf [parentNode, childNode, secondChild] parentNode).
                uri (location c) = uri (location parentNode)"
    unfolding ch by code_simp
  have t: "getTextDocumentFromUri sampleEnv (uri (location parentNode)) = Some ''import b''"
    by code_simp
  note th = children_are_skeletonized_before_parent [OF run ev same, unfolded ch]
  from th t show ?thesis by simp
qed

end
